theory Spec2Isabelle
  imports Complex_Main "HOL-Library.Word"
begin

unbundle bit_operations_syntax

section \<open>Data model of builtins-dataview.cc\<close>

text \<open>
  Machine types of the source: \<open>uint8_t\<close>, \<open>size_t\<close> (a 64-bit target), and the
  IEEE-754 bit patterns of \<open>double\<close> and \<open>float\<close>.
\<close>

type_synonym byte = "8 word"
type_synonym size_t = "64 word"
type_synonym double = "64 word"
type_synonym float = "32 word"

datatype MessageTemplate =
    kConstructorNotFunction
  | kDataViewNotArrayBuffer
  | kInvalidOffset
  | kInvalidDataViewLength
  | kInvalidDataViewAccessorOffset
  | kDetachedOperation
  | kIncompatibleMethodReceiver

text \<open>
  A \<open>JSArrayBuffer\<close>: its length (an integer-valued Number), the neutered (detached)
  flag and the backing store. A \<open>JSDataView\<close> refers to its buffer by address; its
  offset and length are integer-valued Numbers written once by the constructor.
\<close>

record JSArrayBuffer =
  byte_length :: nat
  was_neutered :: bool
  backing_store :: "byte list"

record JSDataView =
  buffer :: nat
  byte_offset :: nat
  byte_length :: nat

datatype object =
    Undefined
  | Null
  | Boolean bool
  | Number double
  | BigInt int
  | String string
  | ArrayBufferObject nat
  | DataViewObject JSDataView
  | JSReceiver nat

text \<open>
  A pending exception of the isolate, or the end of the process: \<open>CheckFailed\<close> is a
  failed \<open>CHECK\<close>, \<open>OutOfBoundsAccess\<close> a load or store outside the backing store.
\<close>

datatype error =
    TypeError MessageTemplate "object list"
  | RangeError MessageTemplate "object list"
  | Thrown object
  | CheckFailed
  | OutOfBoundsAccess

text \<open>
  The part of the isolate the builtins touch: the array buffers on the heap, by
  address, and the effects of script code run by a conversion, in order.
\<close>

record Isolate =
  buffers :: "nat \<Rightarrow> JSArrayBuffer"
  script_effects :: "nat list"

text \<open>
  The conversion protocols and the object allocation are external to this file; they
  run script code, so each takes the isolate and returns it changed. The build
  configuration fixes \<open>V8_TARGET_LITTLE_ENDIAN\<close>.
\<close>

record runtime =
  ToIndex :: "object \<Rightarrow> MessageTemplate \<Rightarrow> Isolate \<Rightarrow> (error + nat) \<times> Isolate"
  ToNumber :: "object \<Rightarrow> Isolate \<Rightarrow> (error + double) \<times> Isolate"
  BigInt_FromObject :: "object \<Rightarrow> Isolate \<Rightarrow> (error + int) \<times> Isolate"
  JSObject_New :: "object \<Rightarrow> object \<Rightarrow> Isolate \<Rightarrow> (error + unit) \<times> Isolate"
  V8_TARGET_LITTLE_ENDIAN :: bool

datatype ElementType =
    Int8 | Uint8 | Int16 | Uint16 | Int32 | Uint32
  | Float32 | Float64 | BigInt64 | BigUint64

text \<open>The C++ type each instantiation of the macros is given, as a value of that type.\<close>

datatype scalar =
    Int8_t "8 word" | Uint8_t "8 word"
  | Int16_t "16 word" | Uint16_t "16 word"
  | Int32_t "32 word" | Uint32_t "32 word"
  | Float float | Double double
  | Int64_t "64 word" | Uint64_t "64 word"

fun sizeof :: "ElementType \<Rightarrow> nat" where
  "sizeof Int8 = 1"
| "sizeof Uint8 = 1"
| "sizeof Int16 = 2"
| "sizeof Uint16 = 2"
| "sizeof Int32 = 4"
| "sizeof Uint32 = 4"
| "sizeof Float32 = 4"
| "sizeof Float64 = 8"
| "sizeof BigInt64 = 8"
| "sizeof BigUint64 = 8"

text \<open>The macro argument \<open>#Type\<close>.\<close>

fun type_name :: "ElementType \<Rightarrow> string" where
  "type_name Int8 = ''Int8''"
| "type_name Uint8 = ''Uint8''"
| "type_name Int16 = ''Int16''"
| "type_name Uint16 = ''Uint16''"
| "type_name Int32 = ''Int32''"
| "type_name Uint32 = ''Uint32''"
| "type_name Float32 = ''Float32''"
| "type_name Float64 = ''Float64''"
| "type_name BigInt64 = ''BigInt64''"
| "type_name BigUint64 = ''BigUint64''"

section \<open>Byte order\<close>

definition NeedToFlipBytes :: "bool \<Rightarrow> bool \<Rightarrow> bool" where
  "NeedToFlipBytes target_little_endian is_little_endian =
     (if target_little_endian then \<not> is_little_endian else is_little_endian)"

text \<open>
  \<open>CopyBytes<n>(target, source)\<close>: a pointer is a memory region and an index into it.
  The loop runs \<open>n\<close> times; a load or store outside its region ends it with \<open>None\<close>.
\<close>

fun CopyBytes :: "nat \<Rightarrow> byte list \<Rightarrow> nat \<Rightarrow> byte list \<Rightarrow> nat \<Rightarrow> byte list option" where
  "CopyBytes 0 tmem target smem source = Some tmem"
| "CopyBytes (Suc n) tmem target smem source =
     (if target < length tmem \<and> source < length smem
      then CopyBytes n (tmem[target := smem ! source]) (target + 1) smem (source + 1)
      else None)"

text \<open>
  \<open>FlipBytes<n>(target, source)\<close>: the source pointer starts at \<open>source + (n - 1)\<close>
  and steps down. The pointer is an \<open>int\<close> here, as its last decrement may leave it
  one before the region.
\<close>

fun FlipBytes_loop :: "nat \<Rightarrow> byte list \<Rightarrow> nat \<Rightarrow> byte list \<Rightarrow> int \<Rightarrow> byte list option" where
  "FlipBytes_loop 0 tmem target smem source = Some tmem"
| "FlipBytes_loop (Suc n) tmem target smem source =
     (if target < length tmem \<and> 0 \<le> source \<and> source < int (length smem)
      then FlipBytes_loop n (tmem[target := smem ! nat source]) (target + 1) smem (source - 1)
      else None)"

definition FlipBytes :: "nat \<Rightarrow> byte list \<Rightarrow> nat \<Rightarrow> byte list \<Rightarrow> nat \<Rightarrow> byte list option" where
  "FlipBytes n tmem target smem source =
     FlipBytes_loop n tmem target smem (int source + (int n - 1))"

section \<open>Numbers and their representation\<close>

text \<open>
  The union \<open>{ T data; uint8_t bytes[sizeof(T)]; }\<close>: the bytes of a value in the
  target's native order, least significant byte first on a little-endian target.
\<close>

definition word_bytes :: "bool \<Rightarrow> nat \<Rightarrow> 'a::len word \<Rightarrow> byte list" where
  "word_bytes target_little_endian n w =
     (let bs = map (\<lambda>i. ucast (drop_bit (8 * i) w)) [0..<n]
      in if target_little_endian then bs else rev bs)"

definition bytes_word :: "bool \<Rightarrow> byte list \<Rightarrow> 'a::len word" where
  "bytes_word target_little_endian bs =
     word_of_int (horner_sum uint 256 (if target_little_endian then bs else rev bs))"

fun union_bytes :: "bool \<Rightarrow> scalar \<Rightarrow> byte list" where
  "union_bytes tle (Int8_t w) = word_bytes tle 1 w"
| "union_bytes tle (Uint8_t w) = word_bytes tle 1 w"
| "union_bytes tle (Int16_t w) = word_bytes tle 2 w"
| "union_bytes tle (Uint16_t w) = word_bytes tle 2 w"
| "union_bytes tle (Int32_t w) = word_bytes tle 4 w"
| "union_bytes tle (Uint32_t w) = word_bytes tle 4 w"
| "union_bytes tle (Float w) = word_bytes tle 4 w"
| "union_bytes tle (Double w) = word_bytes tle 8 w"
| "union_bytes tle (Int64_t w) = word_bytes tle 8 w"
| "union_bytes tle (Uint64_t w) = word_bytes tle 8 w"

fun union_data :: "bool \<Rightarrow> ElementType \<Rightarrow> byte list \<Rightarrow> scalar" where
  "union_data tle Int8 bs = Int8_t (bytes_word tle bs)"
| "union_data tle Uint8 bs = Uint8_t (bytes_word tle bs)"
| "union_data tle Int16 bs = Int16_t (bytes_word tle bs)"
| "union_data tle Uint16 bs = Uint16_t (bytes_word tle bs)"
| "union_data tle Int32 bs = Int32_t (bytes_word tle bs)"
| "union_data tle Uint32 bs = Uint32_t (bytes_word tle bs)"
| "union_data tle Float32 bs = Float (bytes_word tle bs)"
| "union_data tle Float64 bs = Double (bytes_word tle bs)"
| "union_data tle BigInt64 bs = Int64_t (bytes_word tle bs)"
| "union_data tle BigUint64 bs = Uint64_t (bytes_word tle bs)"

text \<open>
  IEEE-754 binary formats with \<open>p\<close> fraction bits and \<open>w\<close> exponent bits. The
  magnitude of a finite bit pattern \<open>k\<close> (sign bit removed) is \<open>m * 2 ^ e\<close> for
  \<open>(m, e) = ieee_fields p w k\<close>.
\<close>

definition ieee_emin :: "nat \<Rightarrow> nat \<Rightarrow> int" where
  "ieee_emin p w = 2 - 2 ^ (w - 1) - int p"

definition ieee_fields :: "nat \<Rightarrow> nat \<Rightarrow> nat \<Rightarrow> nat \<times> int" where
  "ieee_fields p w k =
     (if k div 2 ^ p = 0 then (k mod 2 ^ p, ieee_emin p w)
      else (2 ^ p + k mod 2 ^ p, int (k div 2 ^ p) - 1 + ieee_emin p w))"

fun bit_length :: "nat \<Rightarrow> nat" where
  "bit_length n = (if n = 0 then 0 else Suc (bit_length (n div 2)))"

declare bit_length.simps [simp del]

text \<open>
  The bit pattern nearest to the magnitude \<open>m * 2 ^ e\<close>, ties to even, infinity when
  the magnitude is beyond the format: what a conversion to the format yields in the
  default rounding mode.
\<close>

definition ieee_round :: "nat \<Rightarrow> nat \<Rightarrow> nat \<Rightarrow> int \<Rightarrow> nat" where
  "ieee_round p w m e =
     (let u = min e (ieee_emin p w);
          d = m * 2 ^ nat (e - u);
          t = nat (ieee_emin p w - u);
          s = max t (bit_length d - (p + 1));
          q = d div 2 ^ s;
          r = d mod 2 ^ s;
          k = (s - t) * 2 ^ p + q;
          k' = (if 2 ^ s < 2 * r \<or> (2 * r = 2 ^ s \<and> odd k) then k + 1 else k)
      in min k' ((2 ^ w - 1) * 2 ^ p))"

definition double_sign :: "double \<Rightarrow> bool" where
  "double_sign d = bit d 63"

definition double_magnitude :: "double \<Rightarrow> nat" where
  "double_magnitude d = unat (take_bit 63 d)"

definition double_is_finite :: "double \<Rightarrow> bool" where
  "double_is_finite d = (double_magnitude d < 2047 * 2 ^ 52)"

definition float_sign :: "float \<Rightarrow> bool" where
  "float_sign f = bit f 31"

definition float_magnitude :: "float \<Rightarrow> nat" where
  "float_magnitude f = unat (take_bit 31 f)"

text \<open>The implicit conversion of an integer value to \<open>double\<close> in \<open>NewNumber(value)\<close>.\<close>

definition double_of_int :: "int \<Rightarrow> double" where
  "double_of_int i =
     (if i < 0 then push_bit 63 1 else 0) OR word_of_nat (ieee_round 52 11 (nat \<bar>i\<bar>) 0)"

text \<open>
  The implicit conversion of a \<open>float\<close> to \<open>double\<close> in \<open>NewNumber(value)\<close>: exact
  for a finite value and for infinity; a NaN stays a NaN, made quiet.
\<close>

definition double_of_float :: "float \<Rightarrow> double" where
  "double_of_float f =
     (if float_sign f then push_bit 63 1 else 0) OR
     (if float_magnitude f < 255 * 2 ^ 23
      then (case ieee_fields 23 8 (float_magnitude f) of
              (m, e) \<Rightarrow> word_of_nat (ieee_round 52 11 m e))
      else if float_magnitude f = 255 * 2 ^ 23 then push_bit 52 2047
      else push_bit 52 2047 OR push_bit 51 1 OR
           push_bit 29 (word_of_nat (float_magnitude f mod 2 ^ 23)))"

text \<open>
  \<open>static_cast<float>(double)\<close>: the nearest \<open>float\<close>; a NaN stays a NaN, made quiet.
\<close>

definition static_cast_float :: "double \<Rightarrow> float" where
  "static_cast_float d =
     (if double_sign d then push_bit 31 1 else 0) OR
     (if double_is_finite d
      then (case ieee_fields 52 11 (double_magnitude d) of
              (m, e) \<Rightarrow> word_of_nat (ieee_round 23 8 m e))
      else if double_magnitude d = 2047 * 2 ^ 52 then push_bit 23 255
      else push_bit 22 511 OR word_of_nat (double_magnitude d mod 2 ^ 52 div 2 ^ 29))"

text \<open>
  Modelled from the spec: \<open>DoubleToInt32\<close> and \<open>DoubleToUint32\<close> are declared in
  src/conversions.h, which is not among the sources. Section 4.3 step 5 gives them:
  the double is truncated to an integer, "non-finite values map to 0, finite values
  are reduced modulo 2^32 with sign reinterpretation".
\<close>

definition double_truncate :: "double \<Rightarrow> int" where
  "double_truncate d =
     (case ieee_fields 52 11 (double_magnitude d) of
        (m, e) \<Rightarrow> (if double_sign d then - 1 else 1) *
                  (if 0 \<le> e then int m * 2 ^ nat e else int m div 2 ^ nat (- e)))"

definition DoubleToInt32 :: "double \<Rightarrow> 32 word" where
  "DoubleToInt32 x = (if double_is_finite x then word_of_int (double_truncate x) else 0)"

definition DoubleToUint32 :: "double \<Rightarrow> 32 word" where
  "DoubleToUint32 x = DoubleToInt32 x"

text \<open>
  Modelled from the spec: \<open>BigInt::AsInt64\<close>, \<open>AsUint64\<close>, \<open>FromInt64\<close> and
  \<open>FromUint64\<close> are members of a class that is not among the sources. Section 4.3
  step 5: "take the low 64 bits of the arbitrary-precision integer's two's-complement
  representation"; section 4.2 step 6: "produce an arbitrary-precision big-integer
  value from the 64-bit two's-complement pattern (signed or unsigned per kind)".
\<close>

definition AsInt64 :: "int \<Rightarrow> 64 word" where
  "AsInt64 i = word_of_int i"

definition AsUint64 :: "int \<Rightarrow> 64 word" where
  "AsUint64 i = word_of_int i"

definition FromInt64 :: "64 word \<Rightarrow> object" where
  "FromInt64 n = BigInt (sint n)"

definition FromUint64 :: "64 word \<Rightarrow> object" where
  "FromUint64 n = BigInt (uint n)"

definition NewNumber :: "double \<Rightarrow> object" where
  "NewNumber x = Number x"

text \<open>
  Modelled from the spec: \<open>TryNumberToSize\<close> and \<open>NumberToSize\<close> are declared in
  src/conversions.h, which is not among the sources. An index is "a non-negative
  integer within a defined safe range" (glossary); as a \<open>size_t\<close> it is that integer,
  and the conversion fails for one that \<open>size_t\<close> cannot hold. \<open>NumberToSize\<close> is the
  same conversion under a \<open>CHECK\<close>.
\<close>

definition TryNumberToSize :: "nat \<Rightarrow> size_t option" where
  "TryNumberToSize number = (if number < 2 ^ 64 then Some (word_of_nat number) else None)"

definition NumberToSize :: "nat \<Rightarrow> error + size_t" where
  "NumberToSize number =
     (case TryNumberToSize number of None \<Rightarrow> Inl CheckFailed | Some result \<Rightarrow> Inr result)"

text \<open>
  Modelled from the spec: \<open>Object::BooleanValue\<close> is not among the sources. The flag
  is "boolean, default false": an absent flag is \<open>undefined\<close> and reads as false; the
  other values follow the language's truthiness.
\<close>

fun BooleanValue :: "object \<Rightarrow> bool" where
  "BooleanValue Undefined = False"
| "BooleanValue Null = False"
| "BooleanValue (Boolean b) = b"
| "BooleanValue (Number x) = (double_magnitude x \<noteq> 0 \<and> double_magnitude x \<le> 2047 * 2 ^ 52)"
| "BooleanValue (BigInt i) = (i \<noteq> 0)"
| "BooleanValue (String s) = (s \<noteq> [])"
| "BooleanValue (ArrayBufferObject a) = True"
| "BooleanValue (DataViewObject v) = True"
| "BooleanValue (JSReceiver r) = True"

definition atOrUndefined :: "object list \<Rightarrow> nat \<Rightarrow> object" where
  "atOrUndefined args n = (if n < length args then args ! n else Undefined)"

section \<open>The accessor engine\<close>

fun AllocateResult :: "scalar \<Rightarrow> object" where
  "AllocateResult (Int8_t v) = NewNumber (double_of_int (sint v))"
| "AllocateResult (Uint8_t v) = NewNumber (double_of_int (uint v))"
| "AllocateResult (Int16_t v) = NewNumber (double_of_int (sint v))"
| "AllocateResult (Uint16_t v) = NewNumber (double_of_int (uint v))"
| "AllocateResult (Int32_t v) = NewNumber (double_of_int (sint v))"
| "AllocateResult (Uint32_t v) = NewNumber (double_of_int (uint v))"
| "AllocateResult (Float v) = NewNumber (double_of_float v)"
| "AllocateResult (Double v) = NewNumber v"
| "AllocateResult (Int64_t v) = FromInt64 v"
| "AllocateResult (Uint64_t v) = FromUint64 v"

text \<open>
  \<open>GetViewValue<T>\<close>. The \<open>DCHECK_GE\<close> on the buffer length is compiled out of a
  release build; the loads of the copy are checked against the backing store here.
\<close>

definition GetViewValue ::
  "runtime \<Rightarrow> ElementType \<Rightarrow> JSDataView \<Rightarrow> object \<Rightarrow> bool \<Rightarrow> string \<Rightarrow> Isolate
     \<Rightarrow> (error + object) \<times> Isolate" where
  "GetViewValue rt T data_view request_index is_little_endian method isolate =
     (case ToIndex rt request_index kInvalidDataViewAccessorOffset isolate of
        (Inl e, isolate1) \<Rightarrow> (Inl e, isolate1)
      | (Inr request_index1, isolate1) \<Rightarrow>
     (case TryNumberToSize request_index1 of
        None \<Rightarrow> (Inl (RangeError kInvalidDataViewAccessorOffset []), isolate1)
      | Some get_index \<Rightarrow>
     (let buffer = buffers isolate1 (JSDataView.buffer data_view) in
      if was_neutered buffer
      then (Inl (TypeError kDetachedOperation [String method]), isolate1)
      else
     (case NumberToSize (byte_offset data_view) of
        Inl e \<Rightarrow> (Inl e, isolate1)
      | Inr data_view_byte_offset \<Rightarrow>
     (case NumberToSize (JSDataView.byte_length data_view) of
        Inl e \<Rightarrow> (Inl e, isolate1)
      | Inr data_view_byte_length \<Rightarrow>
      if get_index + word_of_nat (sizeof T) > data_view_byte_length \<or>
         get_index + word_of_nat (sizeof T) < get_index
      then (Inl (RangeError kInvalidDataViewAccessorOffset []), isolate1)
      else
     (let buffer_offset = data_view_byte_offset + get_index;
          source = unat buffer_offset;
          bytes = replicate (sizeof T) 0
      in case (if NeedToFlipBytes (V8_TARGET_LITTLE_ENDIAN rt) is_little_endian
               then FlipBytes (sizeof T) bytes 0 (backing_store buffer) source
               else CopyBytes (sizeof T) bytes 0 (backing_store buffer) source) of
           None \<Rightarrow> (Inl OutOfBoundsAccess, isolate1)
         | Some bytes1 \<Rightarrow>
             (Inr (AllocateResult (union_data (V8_TARGET_LITTLE_ENDIAN rt) T bytes1)),
              isolate1)))))))"

fun DataViewConvertInput ::
  "runtime \<Rightarrow> ElementType \<Rightarrow> object \<Rightarrow> Isolate \<Rightarrow> (error + object) \<times> Isolate" where
  "DataViewConvertInput rt BigInt64 input isolate =
     (case BigInt_FromObject rt input isolate of
        (Inl e, isolate1) \<Rightarrow> (Inl e, isolate1)
      | (Inr i, isolate1) \<Rightarrow> (Inr (BigInt i), isolate1))"
| "DataViewConvertInput rt BigUint64 input isolate =
     (case BigInt_FromObject rt input isolate of
        (Inl e, isolate1) \<Rightarrow> (Inl e, isolate1)
      | (Inr i, isolate1) \<Rightarrow> (Inr (BigInt i), isolate1))"
| "DataViewConvertInput rt T input isolate =
     (case ToNumber rt input isolate of
        (Inl e, isolate1) \<Rightarrow> (Inl e, isolate1)
      | (Inr x, isolate1) \<Rightarrow> (Inr (Number x), isolate1))"

text \<open>
  \<open>DataViewConvertValue<T>\<close>, one equation for each specialisation. A narrowing
  \<open>static_cast\<close> keeps the low-order bits. \<open>value->Number()\<close> of an object that is
  not a Number and \<open>BigInt::cast\<close> of one that is not a BigInt have no result.
\<close>

fun DataViewConvertValue :: "ElementType \<Rightarrow> object \<Rightarrow> scalar option" where
  "DataViewConvertValue Int8 (Number x) = Some (Int8_t (ucast (DoubleToInt32 x)))"
| "DataViewConvertValue Int16 (Number x) = Some (Int16_t (ucast (DoubleToInt32 x)))"
| "DataViewConvertValue Int32 (Number x) = Some (Int32_t (DoubleToInt32 x))"
| "DataViewConvertValue Uint8 (Number x) = Some (Uint8_t (ucast (DoubleToUint32 x)))"
| "DataViewConvertValue Uint16 (Number x) = Some (Uint16_t (ucast (DoubleToUint32 x)))"
| "DataViewConvertValue Uint32 (Number x) = Some (Uint32_t (DoubleToUint32 x))"
| "DataViewConvertValue Float32 (Number x) = Some (Float (static_cast_float x))"
| "DataViewConvertValue Float64 (Number x) = Some (Double x)"
| "DataViewConvertValue BigInt64 (BigInt i) = Some (Int64_t (AsInt64 i))"
| "DataViewConvertValue BigUint64 (BigInt i) = Some (Uint64_t (AsUint64 i))"
| "DataViewConvertValue T value = None"

text \<open>
  \<open>SetViewValue<T>\<close>. The stores of the copy go to the backing store of the buffer
  at the address the view holds.
\<close>

definition SetViewValue ::
  "runtime \<Rightarrow> ElementType \<Rightarrow> JSDataView \<Rightarrow> object \<Rightarrow> bool \<Rightarrow> object \<Rightarrow> string \<Rightarrow> Isolate
     \<Rightarrow> (error + object) \<times> Isolate" where
  "SetViewValue rt T data_view request_index is_little_endian value method isolate =
     (case ToIndex rt request_index kInvalidDataViewAccessorOffset isolate of
        (Inl e, isolate1) \<Rightarrow> (Inl e, isolate1)
      | (Inr request_index1, isolate1) \<Rightarrow>
     (case DataViewConvertInput rt T value isolate1 of
        (Inl e, isolate2) \<Rightarrow> (Inl e, isolate2)
      | (Inr value1, isolate2) \<Rightarrow>
     (case TryNumberToSize request_index1 of
        None \<Rightarrow> (Inl (RangeError kInvalidDataViewAccessorOffset []), isolate2)
      | Some get_index \<Rightarrow>
     (let buffer = buffers isolate2 (JSDataView.buffer data_view) in
      if was_neutered buffer
      then (Inl (TypeError kDetachedOperation [String method]), isolate2)
      else
     (case NumberToSize (byte_offset data_view) of
        Inl e \<Rightarrow> (Inl e, isolate2)
      | Inr data_view_byte_offset \<Rightarrow>
     (case NumberToSize (JSDataView.byte_length data_view) of
        Inl e \<Rightarrow> (Inl e, isolate2)
      | Inr data_view_byte_length \<Rightarrow>
      if get_index + word_of_nat (sizeof T) > data_view_byte_length \<or>
         get_index + word_of_nat (sizeof T) < get_index
      then (Inl (RangeError kInvalidDataViewAccessorOffset []), isolate2)
      else
     (case DataViewConvertValue T value1 of
        None \<Rightarrow> (Inl CheckFailed, isolate2)
      | Some data \<Rightarrow>
     (let buffer_offset = data_view_byte_offset + get_index;
          target = unat buffer_offset;
          bytes = union_bytes (V8_TARGET_LITTLE_ENDIAN rt) data
      in case (if NeedToFlipBytes (V8_TARGET_LITTLE_ENDIAN rt) is_little_endian
               then FlipBytes (sizeof T) (backing_store buffer) target bytes 0
               else CopyBytes (sizeof T) (backing_store buffer) target bytes 0) of
           None \<Rightarrow> (Inl OutOfBoundsAccess, isolate2)
         | Some store \<Rightarrow>
             (Inr Undefined,
              isolate2\<lparr>buffers := (buffers isolate2)
                 (JSDataView.buffer data_view := buffer\<lparr>backing_store := store\<rparr>)\<rparr>)))))))))"

section \<open>The builtins\<close>

text \<open>
  Modelled from the spec: the macro \<open>CHECK_RECEIVER\<close> is defined in
  src/builtins/builtins-utils.h, which is not among the sources. Section 7: a type
  error when the "receiver is not a View". \<open>args\<close> holds the receiver at index 0.
\<close>

definition CHECK_RECEIVER_JSDataView :: "object list \<Rightarrow> string \<Rightarrow> error + JSDataView" where
  "CHECK_RECEIVER_JSDataView args method =
     (case atOrUndefined args 0 of
        DataViewObject data_view \<Rightarrow> Inr data_view
      | receiver \<Rightarrow> Inl (TypeError kIncompatibleMethodReceiver [String method, receiver]))"

text \<open>\<open>DATA_VIEW_PROTOTYPE_GET(Type, type)\<close>, the macro body with \<open>T\<close> for both arguments.\<close>

definition DataViewPrototypeGet ::
  "runtime \<Rightarrow> ElementType \<Rightarrow> object list \<Rightarrow> Isolate \<Rightarrow> (error + object) \<times> Isolate" where
  "DataViewPrototypeGet rt T args isolate =
     (case CHECK_RECEIVER_JSDataView args (''DataView.prototype.get'' @ type_name T) of
        Inl e \<Rightarrow> (Inl e, isolate)
      | Inr data_view \<Rightarrow>
          (let byte_offset = atOrUndefined args 1;
               is_little_endian = atOrUndefined args 2
           in GetViewValue rt T data_view byte_offset (BooleanValue is_little_endian)
                (''DataView.prototype.get'' @ type_name T) isolate))"

text \<open>\<open>DATA_VIEW_PROTOTYPE_SET(Type, type)\<close>, likewise.\<close>

definition DataViewPrototypeSet ::
  "runtime \<Rightarrow> ElementType \<Rightarrow> object list \<Rightarrow> Isolate \<Rightarrow> (error + object) \<times> Isolate" where
  "DataViewPrototypeSet rt T args isolate =
     (case CHECK_RECEIVER_JSDataView args (''DataView.prototype.set'' @ type_name T) of
        Inl e \<Rightarrow> (Inl e, isolate)
      | Inr data_view \<Rightarrow>
          (let byte_offset = atOrUndefined args 1;
               value = atOrUndefined args 2;
               is_little_endian = atOrUndefined args 3
           in SetViewValue rt T data_view byte_offset (BooleanValue is_little_endian) value
                (''DataView.prototype.get'' @ type_name T) isolate))"

text \<open>
  Modelled from the spec: the field accessors of \<open>JSDataView\<close> are not among the
  sources. Section 3: "The View's fields themselves are immutable after construction";
  section 6: the properties are "pure accessors, no validation beyond receiver-type
  check". The accessor returns the Number the constructor stored.
\<close>

definition DataViewPrototypeGetBuffer :: "object list \<Rightarrow> Isolate \<Rightarrow> (error + object) \<times> Isolate" where
  "DataViewPrototypeGetBuffer args isolate =
     (case CHECK_RECEIVER_JSDataView args ''get DataView.prototype.buffer'' of
        Inl e \<Rightarrow> (Inl e, isolate)
      | Inr data_view \<Rightarrow> (Inr (ArrayBufferObject (JSDataView.buffer data_view)), isolate))"

definition DataViewPrototypeGetByteLength :: "object list \<Rightarrow> Isolate \<Rightarrow> (error + object) \<times> Isolate" where
  "DataViewPrototypeGetByteLength args isolate =
     (case CHECK_RECEIVER_JSDataView args ''get DataView.prototype.byteLength'' of
        Inl e \<Rightarrow> (Inl e, isolate)
      | Inr data_view \<Rightarrow>
          (Inr (Number (double_of_int (int (JSDataView.byte_length data_view)))), isolate))"

definition DataViewPrototypeGetByteOffset :: "object list \<Rightarrow> Isolate \<Rightarrow> (error + object) \<times> Isolate" where
  "DataViewPrototypeGetByteOffset args isolate =
     (case CHECK_RECEIVER_JSDataView args ''get DataView.prototype.byteOffset'' of
        Inl e \<Rightarrow> (Inl e, isolate)
      | Inr data_view \<Rightarrow>
          (Inr (Number (double_of_int (int (byte_offset data_view)))), isolate))"

text \<open>
  \<open>DataViewConstructor\<close>. A byte length is an integer-valued Number below \<open>2 ^ 53\<close>
  and an index is one too, so the sums and differences of the source are exact where
  they are below \<open>2 ^ 53\<close> and above every byte length otherwise: the comparisons are
  those of the integers. The loop over the embedder fields writes to the new object
  only.
\<close>

definition DataViewConstructor ::
  "runtime \<Rightarrow> object \<Rightarrow> object \<Rightarrow> object list \<Rightarrow> Isolate \<Rightarrow> (error + object) \<times> Isolate" where
  "DataViewConstructor rt target new_target args isolate =
     (if new_target = Undefined
      then (Inl (TypeError kConstructorNotFunction [String ''DataView'']), isolate)
      else
     (let buffer = atOrUndefined args 1;
          byte_offset = atOrUndefined args 2;
          byte_length = atOrUndefined args 3
      in case buffer of
        ArrayBufferObject array_buffer \<Rightarrow>
     (case ToIndex rt byte_offset kInvalidOffset isolate of
        (Inl e, isolate1) \<Rightarrow> (Inl e, isolate1)
      | (Inr offset, isolate1) \<Rightarrow>
     (let buffer_byte_length = JSArrayBuffer.byte_length (buffers isolate1 array_buffer) in
      if offset > buffer_byte_length
      then (Inl (RangeError kInvalidOffset [Number (double_of_int (int offset))]), isolate1)
      else
     (case (if byte_length = Undefined
            then (Inr (buffer_byte_length - offset), isolate1)
            else (case ToIndex rt byte_length kInvalidDataViewLength isolate1 of
                    (Inl e, isolate2) \<Rightarrow> (Inl e, isolate2)
                  | (Inr view_byte_length, isolate2) \<Rightarrow>
                      if offset + view_byte_length > buffer_byte_length
                      then (Inl (RangeError kInvalidDataViewLength []), isolate2)
                      else (Inr view_byte_length, isolate2))) of
        (Inl e, isolate2) \<Rightarrow> (Inl e, isolate2)
      | (Inr view_byte_length, isolate2) \<Rightarrow>
     (case JSObject_New rt target new_target isolate2 of
        (Inl e, isolate3) \<Rightarrow> (Inl e, isolate3)
      | (Inr result, isolate3) \<Rightarrow>
          (Inr (DataViewObject \<lparr>buffer = array_buffer, byte_offset = offset,
                                 byte_length = view_byte_length\<rparr>), isolate3)))))
      | _ \<Rightarrow> (Inl (TypeError kDataViewNotArrayBuffer []), isolate)))"

text \<open>
  Modelled from the spec: the detachment of a buffer is not among the sources.
  Section 3: "Detachment is a one-way transition (attached to detached)"; "once
  detached, byte_length() is defined to be 0 and storage access is forbidden".
\<close>

definition Neuter :: "nat \<Rightarrow> Isolate \<Rightarrow> Isolate" where
  "Neuter array_buffer isolate =
     isolate\<lparr>buffers := (buffers isolate)
       (array_buffer := \<lparr>JSArrayBuffer.byte_length = 0, was_neutered = True, backing_store = []\<rparr>)\<rparr>"

section \<open>Notions of the specification\<close>

text \<open>
  What the constructor establishes for a view over a buffer that is attached: the
  window of the view lies inside the backing store, whose size is a \<open>size_t\<close>.
\<close>

definition view_within :: "JSDataView \<Rightarrow> JSArrayBuffer \<Rightarrow> bool" where
  "view_within v b \<longleftrightarrow>
     byte_offset v + JSDataView.byte_length v \<le> length (backing_store b) \<and>
     length (backing_store b) < 2 ^ 64"

text \<open>
  The number a bit pattern stands for. A magnitude pattern \<open>k\<close> with fields
  \<open>(m, e)\<close> has the value \<open>m * 2 ^ e\<close>; in units of the least subnormal that is
  \<open>ieee_scaled p k\<close>. Read so, the pattern of infinity, \<open>(2 ^ w - 1) * 2 ^ p\<close>, has
  the value at which rounding to nearest overflows (\<open>2 ^ 128\<close> in single precision).
\<close>

definition ieee_value :: "nat \<Rightarrow> nat \<Rightarrow> nat \<Rightarrow> real" where
  "ieee_value p w k = (case ieee_fields p w k of (m, e) \<Rightarrow> real m * 2 powi e)"

definition ieee_scaled :: "nat \<Rightarrow> nat \<Rightarrow> nat" where
  "ieee_scaled p k =
     (if k div 2 ^ p = 0 then k mod 2 ^ p else (2 ^ p + k mod 2 ^ p) * 2 ^ (k div 2 ^ p - 1))"

definition double_value :: "double \<Rightarrow> real" where
  "double_value x = (if double_sign x then - 1 else 1) * ieee_value 52 11 (double_magnitude x)"

text \<open>
  The narrowing \<open>narrow_T\<close> of section 4.3 step 5, in the words of the spec and on
  the numbers the bit patterns stand for. For the integers: truncation of the double
  to an integer, modulo \<open>2 ^ 32\<close> with non-finite values mapped to 0, the low-order
  bits of the narrower width, and the sign reinterpretation of a signed kind.
\<close>

definition truncate_toward_zero :: "real \<Rightarrow> int" where
  "truncate_toward_zero r = (if r < 0 then - \<lfloor>- r\<rfloor> else \<lfloor>r\<rfloor>)"

definition truncate_mod_2_32 :: "double \<Rightarrow> int" where
  "truncate_mod_2_32 x =
     (if double_is_finite x then truncate_toward_zero (double_value x) mod 2 ^ 32 else 0)"

definition low_order_bits :: "nat \<Rightarrow> int \<Rightarrow> int" where
  "low_order_bits n k = k mod 2 ^ n"

definition sign_reinterpret :: "nat \<Rightarrow> int \<Rightarrow> int" where
  "sign_reinterpret n k = (if k < 2 ^ (n - 1) then k else k - 2 ^ n)"

text \<open>
  For \<open>Float32\<close>: "round the double to nearest representable single-precision value
  (ties-to-even)". \<open>is_single_nearest X k\<close>: among the magnitudes of single precision
  none is nearer to \<open>X\<close> than that of the pattern \<open>k\<close>, and \<open>k\<close> is even where
  another one is as near. \<open>is_float_of x f\<close>: the float \<open>f\<close> is the double \<open>x\<close>
  rounded so, with its sign; an infinity stays one and a NaN stays a NaN.
\<close>

definition is_single_nearest :: "real \<Rightarrow> nat \<Rightarrow> bool" where
  "is_single_nearest X k \<longleftrightarrow>
     k \<le> 255 * 2 ^ 23 \<and>
     (\<forall>j\<le>255 * 2 ^ 23.
        \<bar>ieee_value 23 8 k - X\<bar> \<le> \<bar>ieee_value 23 8 j - X\<bar> \<and>
        (\<bar>ieee_value 23 8 j - X\<bar> = \<bar>ieee_value 23 8 k - X\<bar> \<and> j \<noteq> k \<longrightarrow> even k))"

definition is_float_of :: "double \<Rightarrow> float \<Rightarrow> bool" where
  "is_float_of x f \<longleftrightarrow>
     (if double_is_finite x
      then float_sign f = double_sign x \<and>
           is_single_nearest (ieee_value 52 11 (double_magnitude x)) (float_magnitude f)
      else if double_magnitude x = 2047 * 2 ^ 52
      then float_sign f = double_sign x \<and> float_magnitude f = 255 * 2 ^ 23
      else 255 * 2 ^ 23 < float_magnitude f)"

text \<open>
  What a read produces is "a double-precision number value": \<open>number_is_int d n\<close> says
  that the Number \<open>d\<close> is the integer \<open>n\<close>, and \<open>number_is_float d f\<close> that it is the
  single-precision value \<open>f\<close>.
\<close>

definition number_is_int :: "double \<Rightarrow> int \<Rightarrow> bool" where
  "number_is_int d n \<longleftrightarrow>
     double_is_finite d \<and> double_sign d = (n < 0) \<and> double_value d = real_of_int n"

definition number_is_float :: "double \<Rightarrow> float \<Rightarrow> bool" where
  "number_is_float d f \<longleftrightarrow>
     (if float_magnitude f < 255 * 2 ^ 23
      then double_is_finite d \<and> double_sign d = float_sign f \<and>
           ieee_value 52 11 (double_magnitude d) = ieee_value 23 8 (float_magnitude f)
      else if float_magnitude f = 255 * 2 ^ 23
      then double_sign d = float_sign f \<and> double_magnitude d = 2047 * 2 ^ 52
      else 2047 * 2 ^ 52 < double_magnitude d)"

text \<open>
  \<open>is_narrow T x r\<close>: the value \<open>r\<close> is \<open>narrow_T(x)\<close>, for \<open>x\<close> a Number, or a
  big integer for the 64-bit kinds.
\<close>

definition is_narrow :: "ElementType \<Rightarrow> object \<Rightarrow> object \<Rightarrow> bool" where
  "is_narrow T x r =
     (case (x, r) of
        (Number x, Number d) \<Rightarrow>
          (case T of
             Int8 \<Rightarrow> number_is_int d (sign_reinterpret 8 (low_order_bits 8 (truncate_mod_2_32 x)))
           | Uint8 \<Rightarrow> number_is_int d (low_order_bits 8 (truncate_mod_2_32 x))
           | Int16 \<Rightarrow> number_is_int d (sign_reinterpret 16 (low_order_bits 16 (truncate_mod_2_32 x)))
           | Uint16 \<Rightarrow> number_is_int d (low_order_bits 16 (truncate_mod_2_32 x))
           | Int32 \<Rightarrow> number_is_int d (sign_reinterpret 32 (truncate_mod_2_32 x))
           | Uint32 \<Rightarrow> number_is_int d (truncate_mod_2_32 x)
           | Float32 \<Rightarrow> (\<exists>f. is_float_of x f \<and> number_is_float d f)
           | Float64 \<Rightarrow> d = x
           | _ \<Rightarrow> False)
      | (BigInt i, BigInt n) \<Rightarrow>
          (case T of
             BigInt64 \<Rightarrow> n = sign_reinterpret 64 (low_order_bits 64 i)
           | BigUint64 \<Rightarrow> n = low_order_bits 64 i
           | _ \<Rightarrow> False)
      | _ \<Rightarrow> False)"

section \<open>A runtime and an isolate for the examples\<close>

text \<open>
  In the examples \<open>undefined\<close> is the index 0, a Number is its own numeric value and a
  BigInt its own big integer. The object \<open>JSReceiver n\<close> stands for a script object
  whose coercion records \<open>n\<close> in the isolate and yields \<open>n\<close>; every other conversion
  throws. The allocation of the view succeeds.
\<close>

definition record_effect :: "nat \<Rightarrow> Isolate \<Rightarrow> Isolate" where
  "record_effect n isolate = isolate\<lparr>script_effects := script_effects isolate @ [n]\<rparr>"

fun example_ToIndex :: "object \<Rightarrow> MessageTemplate \<Rightarrow> Isolate \<Rightarrow> (error + nat) \<times> Isolate" where
  "example_ToIndex Undefined tmpl isolate = (Inr 0, isolate)"
| "example_ToIndex (JSReceiver n) tmpl isolate = (Inr n, record_effect n isolate)"
| "example_ToIndex obj tmpl isolate = (Inl (RangeError tmpl []), isolate)"

fun example_ToNumber :: "object \<Rightarrow> Isolate \<Rightarrow> (error + double) \<times> Isolate" where
  "example_ToNumber (Number x) isolate = (Inr x, isolate)"
| "example_ToNumber (JSReceiver n) isolate = (Inr (double_of_int (int n)), record_effect n isolate)"
| "example_ToNumber obj isolate = (Inl (Thrown obj), isolate)"

fun example_FromObject :: "object \<Rightarrow> Isolate \<Rightarrow> (error + int) \<times> Isolate" where
  "example_FromObject (BigInt i) isolate = (Inr i, isolate)"
| "example_FromObject (JSReceiver n) isolate = (Inr (int n), record_effect n isolate)"
| "example_FromObject obj isolate = (Inl (Thrown obj), isolate)"

definition example_runtime :: "bool \<Rightarrow> runtime" where
  "example_runtime target_little_endian =
     \<lparr>ToIndex = example_ToIndex,
      ToNumber = example_ToNumber,
      BigInt_FromObject = example_FromObject,
      JSObject_New = (\<lambda>target new_target isolate. (Inr (), isolate)),
      V8_TARGET_LITTLE_ENDIAN = target_little_endian\<rparr>"

text \<open>An isolate whose buffers are all attached, eight bytes long and zero.\<close>

definition example_isolate :: Isolate where
  "example_isolate =
     \<lparr>buffers = (\<lambda>a. \<lparr>JSArrayBuffer.byte_length = 8, was_neutered = False,
                        backing_store = [0, 0, 0, 0, 0, 0, 0, 0]\<rparr>),
      script_effects = []\<rparr>"

text \<open>The view over the whole of buffer 0.\<close>

definition example_view :: JSDataView where
  "example_view = \<lparr>buffer = 0, byte_offset = 0, byte_length = 8\<rparr>"

section \<open>Properties of the copy routines and of the representation\<close>

lemma CopyBytes_eq:
  "CopyBytes n tmem t smem s =
     (if n = 0 \<or> (t + n \<le> length tmem \<and> s + n \<le> length smem)
      then Some (take t tmem @ take n (drop s smem) @ drop (t + n) tmem) else None)"
proof (induction n arbitrary: tmem t s)
  case 0
  then show ?case by simp
next
  case (Suc n)
  show ?case
  proof (cases "t < length tmem \<and> s < length smem")
    case False
    then show ?thesis by auto
  next
    case True
    have a: "take (Suc t) (tmem[t := smem ! s]) = take t tmem @ [smem ! s]"
      using True by (simp add: take_Suc_conv_app_nth)
    have b: "take (Suc n) (drop s smem) = smem ! s # take n (drop (Suc s) smem)"
      using True by (simp add: Cons_nth_drop_Suc [symmetric])
    have c: "drop (Suc (t + n)) (tmem[t := smem ! s]) = drop (Suc (t + n)) tmem"
      by simp
    show ?thesis
      using True by (auto simp: Suc a b c)
  qed
qed

lemma FlipBytes_loop_eq:
  "FlipBytes_loop n tmem t smem (int s + int n - 1) =
     (if n = 0 \<or> (t + n \<le> length tmem \<and> s + n \<le> length smem)
      then Some (take t tmem @ rev (take n (drop s smem)) @ drop (t + n) tmem) else None)"
proof (induction n arbitrary: tmem t)
  case 0
  then show ?case by simp
next
  case (Suc n)
  show ?case
  proof (cases "t < length tmem \<and> s + n < length smem")
    case False
    then show ?thesis by auto
  next
    case True
    have a: "take (Suc t) (tmem[t := smem ! (s + n)]) = take t tmem @ [smem ! (s + n)]"
      using True by (simp add: take_Suc_conv_app_nth)
    have b: "take (Suc n) (drop s smem) = take n (drop s smem) @ [smem ! (s + n)]"
    proof -
      have "n < length (drop s smem)"
        using True by (simp add: less_diff_conv add.commute)
      then have "take (Suc n) (drop s smem) = take n (drop s smem) @ [drop s smem ! n]"
        by (rule take_Suc_conv_app_nth)
      then show ?thesis using True by simp
    qed
    have c: "drop (Suc (t + n)) (tmem[t := smem ! (s + n)]) = drop (Suc (t + n)) tmem"
      by simp
    have d: "int s + int (Suc n) - 1 - 1 = int s + int n - 1" by simp
    have e: "nat (int s + int (Suc n) - 1) = s + n" by simp
    show ?thesis
      using True Suc [of "tmem[t := smem ! (s + n)]" "Suc t"]
      by (auto simp: a b c d e simp del: of_nat_Suc)
  qed
qed

lemma FlipBytes_eq:
  "FlipBytes n tmem t smem s =
     (if n = 0 \<or> (t + n \<le> length tmem \<and> s + n \<le> length smem)
      then Some (take t tmem @ rev (take n (drop s smem)) @ drop (t + n) tmem) else None)"
  using FlipBytes_loop_eq [of n tmem t smem s]
  by (simp add: FlipBytes_def algebra_simps)

lemma length_word_bytes: "length (word_bytes tle n w) = n"
  by (simp add: word_bytes_def Let_def)

lemma rev_word_bytes: "rev (word_bytes tle n w) = word_bytes (\<not> tle) n w"
  by (simp add: word_bytes_def Let_def)

lemma bytes_word_bytes_le:
  fixes w :: "'a::len word"
  assumes "LENGTH('a) \<le> 8 * n"
  shows "bytes_word True (word_bytes True n w) = w"
proof (rule bit_word_eqI)
  fix k assume k: "k < LENGTH('a)"
  let ?bs = "map (\<lambda>i. ucast (drop_bit (8 * i) w) :: byte) [0..<n]"
  have kn: "k div 8 < n"
    using k assms by (simp add: less_mult_imp_div_less mult.commute)
  have "bit (horner_sum uint (2 ^ LENGTH(8)) ?bs) k \<longleftrightarrow>
          k div 8 < length ?bs \<and> bit (?bs ! (k div 8)) (k mod 8)"
    using bit_horner_sum_uint_exp_iff [of ?bs k] by simp
  also have "\<dots> \<longleftrightarrow> bit w k"
    using kn by (simp add: bit_ucast_iff bit_drop_bit_eq)
  finally show "bit (bytes_word True (word_bytes True n w) :: 'a word) k = bit w k"
    using k by (simp add: bytes_word_def word_bytes_def bit_word_of_int_iff)
qed

lemma bytes_word_bytes:
  fixes w :: "'a::len word"
  assumes "LENGTH('a) \<le> 8 * n"
  shows "bytes_word tle (word_bytes tle n w) = w"
proof (cases tle)
  case True
  then show ?thesis using bytes_word_bytes_le [OF assms] by simp
next
  case False
  have "(bytes_word False (word_bytes False n w) :: 'a word) =
          bytes_word True (rev (word_bytes False n w))"
    by (simp add: bytes_word_def)
  also have "\<dots> = bytes_word True (word_bytes True n w)"
    by (simp add: rev_word_bytes)
  also have "\<dots> = w"
    by (rule bytes_word_bytes_le [OF assms])
  finally show ?thesis using False by simp
qed

lemma length_union_bytes:
  "DataViewConvertValue T x = Some d \<Longrightarrow> length (union_bytes tle d) = sizeof T"
  by (cases T; cases x) (auto simp: length_word_bytes)

lemma union_data_bytes:
  "DataViewConvertValue T x = Some d \<Longrightarrow> union_data tle T (union_bytes tle d) = d"
  by (cases T; cases x) (auto simp: bytes_word_bytes)

lemma DataViewConvertInput_value:
  "DataViewConvertInput rt T input isolate = (Inr x, isolate1) \<Longrightarrow>
     \<exists>d. DataViewConvertValue T x = Some d"
  by (cases T) (auto split: prod.splits sum.splits)

lemma upt8: "[0..<8] = [0, 1, 2, 3, 4, 5, 6, 7]"
  by (simp add: upt_rec)

section \<open>The bounds check\<close>

lemma bounds_check_word:
  fixes get_index len k :: "'a::len word"
  shows "(get_index + k > len \<or> get_index + k < get_index) \<longleftrightarrow>
           unat len < unat get_index + unat k"
proof (cases "unat get_index + unat k < 2 ^ LENGTH('a)")
  case True
  then have u: "unat (get_index + k) = unat get_index + unat k"
    by (simp add: unat_add_lem)
  show ?thesis
    by (simp add: word_less_nat_alt u)
next
  case False
  then have "get_index + k < get_index"
    using no_olen_add_nat by fastforce
  moreover have "unat len < 2 ^ LENGTH('a)" by simp
  ultimately show ?thesis using False by linarith
qed

lemma unat_of_nat_size_t: "n < 2 ^ 64 \<Longrightarrow> unat (word_of_nat n :: size_t) = n"
  by (simp add: unat_of_nat)

lemma sizeof_range: "0 < sizeof T \<and> sizeof T \<le> 8"
  by (cases T) simp_all

lemma bounds_check_nat:
  assumes "i < 2 ^ 64" "len < 2 ^ 64"
  shows "((word_of_nat i :: size_t) + word_of_nat (sizeof T) > word_of_nat len \<or>
          (word_of_nat i :: size_t) + word_of_nat (sizeof T) < word_of_nat i) \<longleftrightarrow>
         len < i + sizeof T"
proof -
  have "sizeof T < 2 ^ 64" using sizeof_range [of T] by simp
  then show ?thesis using assms
    by (simp add: bounds_check_word unat_of_nat_size_t)
qed

section \<open>Reads and writes through a view of an attached buffer\<close>

lemma GetViewValue_attached:
  assumes idx: "ToIndex rt request_index kInvalidDataViewAccessorOffset isolate = (Inr i, isolate1)"
    and att: "\<not> was_neutered (buffers isolate1 (JSDataView.buffer v))"
    and inv: "view_within v (buffers isolate1 (JSDataView.buffer v))"
  shows "GetViewValue rt T v request_index le method isolate =
     (if JSDataView.byte_length v < i + sizeof T
      then (Inl (RangeError kInvalidDataViewAccessorOffset []), isolate1)
      else (Inr (AllocateResult (union_data (V8_TARGET_LITTLE_ENDIAN rt) T
              (let source = take (sizeof T)
                     (drop (byte_offset v + i) (backing_store (buffers isolate1 (JSDataView.buffer v))))
               in if le = V8_TARGET_LITTLE_ENDIAN rt then source else rev source))), isolate1))"
proof -
  let ?b = "buffers isolate1 (JSDataView.buffer v)"
  have off: "byte_offset v < 2 ^ 64" and len: "JSDataView.byte_length v < 2 ^ 64"
    and store: "byte_offset v + JSDataView.byte_length v \<le> length (backing_store ?b)"
    and sz: "length (backing_store ?b) < 2 ^ 64"
    using inv by (simp_all add: view_within_def)
  have n: "0 < sizeof T" using sizeof_range [of T] by simp
  show ?thesis
  proof (cases "JSDataView.byte_length v < i + sizeof T")
    case True
    show ?thesis
    proof (cases "i < 2 ^ 64")
      case False
      then show ?thesis using True idx
        by (simp add: GetViewValue_def TryNumberToSize_def)
    next
      case i: True
      show ?thesis using True idx att off len
        by (simp add: GetViewValue_def TryNumberToSize_def NumberToSize_def i
            bounds_check_nat [OF i len])
    qed
  next
    case False
    then have i: "i < 2 ^ 64" using len by simp
    have sum: "byte_offset v + i + sizeof T \<le> length (backing_store ?b)"
      using False store by simp
    then have "byte_offset v + i < 2 ^ 64" using sz by simp
    then have u: "unat ((word_of_nat (byte_offset v) :: size_t) + word_of_nat i) = byte_offset v + i"
      by (simp add: unat_of_nat_size_t flip: of_nat_add)
    show ?thesis using False idx att off len sum n
      by (simp add: GetViewValue_def TryNumberToSize_def NumberToSize_def i
          bounds_check_nat [OF i len] u Let_def CopyBytes_eq FlipBytes_eq NeedToFlipBytes_def)
  qed
qed

lemma SetViewValue_attached:
  assumes idx: "ToIndex rt request_index kInvalidDataViewAccessorOffset isolate = (Inr i, isolate1)"
    and conv: "DataViewConvertInput rt T value isolate1 = (Inr x, isolate2)"
    and att: "\<not> was_neutered (buffers isolate2 (JSDataView.buffer v))"
    and inv: "view_within v (buffers isolate2 (JSDataView.buffer v))"
  shows "SetViewValue rt T v request_index le value method isolate =
     (if JSDataView.byte_length v < i + sizeof T
      then (Inl (RangeError kInvalidDataViewAccessorOffset []), isolate2)
      else (Inr Undefined,
            isolate2\<lparr>buffers := (buffers isolate2)
              (JSDataView.buffer v := (buffers isolate2 (JSDataView.buffer v))
                 \<lparr>backing_store :=
                    take (byte_offset v + i) (backing_store (buffers isolate2 (JSDataView.buffer v))) @
                    (let bytes = union_bytes (V8_TARGET_LITTLE_ENDIAN rt) (the (DataViewConvertValue T x))
                     in if le = V8_TARGET_LITTLE_ENDIAN rt then bytes else rev bytes) @
                    drop (byte_offset v + i + sizeof T)
                      (backing_store (buffers isolate2 (JSDataView.buffer v)))\<rparr>)\<rparr>))"
proof -
  let ?b = "buffers isolate2 (JSDataView.buffer v)"
  have off: "byte_offset v < 2 ^ 64" and len: "JSDataView.byte_length v < 2 ^ 64"
    and store: "byte_offset v + JSDataView.byte_length v \<le> length (backing_store ?b)"
    and sz: "length (backing_store ?b) < 2 ^ 64"
    using inv by (simp_all add: view_within_def)
  have n: "0 < sizeof T" using sizeof_range [of T] by simp
  obtain d where d: "DataViewConvertValue T x = Some d"
    using DataViewConvertInput_value [OF conv] by blast
  have ld: "length (union_bytes (V8_TARGET_LITTLE_ENDIAN rt) d) = sizeof T"
    by (rule length_union_bytes [OF d])
  show ?thesis
  proof (cases "JSDataView.byte_length v < i + sizeof T")
    case True
    show ?thesis
    proof (cases "i < 2 ^ 64")
      case False
      then show ?thesis using True idx conv
        by (simp add: SetViewValue_def TryNumberToSize_def)
    next
      case i: True
      show ?thesis using True idx conv att off len
        by (simp add: SetViewValue_def TryNumberToSize_def NumberToSize_def i
            bounds_check_nat [OF i len])
    qed
  next
    case False
    then have i: "i < 2 ^ 64" using len by simp
    have sum: "byte_offset v + i + sizeof T \<le> length (backing_store ?b)"
      using False store by simp
    then have "byte_offset v + i < 2 ^ 64" using sz by simp
    then have u: "unat ((word_of_nat (byte_offset v) :: size_t) + word_of_nat i) = byte_offset v + i"
      by (simp add: unat_of_nat_size_t flip: of_nat_add)
    show ?thesis using False idx conv att off len sum n
      by (simp add: SetViewValue_def TryNumberToSize_def NumberToSize_def i d ld
          bounds_check_nat [OF i len] u Let_def CopyBytes_eq FlipBytes_eq NeedToFlipBytes_def)
  qed
qed

section \<open>Narrowing and the round trip through the buffer\<close>

lemma bit_top_iff:
  fixes k :: int
  assumes "0 \<le> k" "k < 2 ^ Suc n"
  shows "bit k n \<longleftrightarrow> 2 ^ n \<le> k"
proof -
  obtain m where m: "k = int m"
    using assms(1) nonneg_int_cases by blast
  have lt: "m < 2 * 2 ^ n"
    using assms(2) by (simp add: m flip: of_nat_less_iff [where ?'a = int])
  have "m div 2 ^ n < 2"
    using lt by (rule less_mult_imp_div_less)
  then have "m div 2 ^ n = 0 \<or> m div 2 ^ n = 1" by linarith
  moreover have "m div 2 ^ n = 0 \<longleftrightarrow> m < 2 ^ n"
    by (simp add: div_eq_0_iff)
  ultimately have "bit m n \<longleftrightarrow> 2 ^ n \<le> m"
    by (auto simp: bit_iff_odd)
  moreover have "(2 ^ n \<le> int m) \<longleftrightarrow> 2 ^ n \<le> m"
    using of_nat_le_iff [where ?'a = int, of "2 ^ n" m] by simp
  ultimately show ?thesis
    by (simp add: m bit_of_nat_iff_bit)
qed

lemma sint_sign_reinterpret:
  fixes w :: "'a::len word"
  shows "sint w = sign_reinterpret LENGTH('a) (uint w)"
proof -
  obtain n where n: "LENGTH('a) = Suc n"
    by (cases "LENGTH('a)") simp_all
  have lt: "uint w < 2 ^ Suc n"
    using uint_lt2p [of w] by (simp add: n)
  have tb: "take_bit (Suc n) (uint w) = uint w"
    using lt by (simp add: take_bit_int_eq_self)
  have "sint w = signed_take_bit n (uint w)"
    by (simp add: sint_uint n)
  also have "\<dots> = uint w - 2 ^ Suc n * of_bool (bit (uint w) n)"
    by (simp only: signed_take_bit_eq_take_bit_minus tb)
  also have "\<dots> = sign_reinterpret (Suc n) (uint w)"
    using bit_top_iff [OF _ lt] by (simp add: sign_reinterpret_def)
  finally show ?thesis by (simp add: n)
qed

lemma uint_ucast_low_order_bits:
  fixes w :: "32 word"
  shows "uint (ucast w :: 8 word) = low_order_bits 8 (uint w)"
    and "uint (ucast w :: 16 word) = low_order_bits 16 (uint w)"
  by (simp_all add: low_order_bits_def unsigned_ucast_eq take_bit_eq_mod)

lemma uint_AsInt64: "uint (AsInt64 i) = low_order_bits 64 i"
  by (simp add: AsInt64_def low_order_bits_def uint_word_of_int)

lemma uint_AsUint64: "uint (AsUint64 i) = low_order_bits 64 i"
  by (simp add: AsUint64_def low_order_bits_def uint_word_of_int)

lemma written_bytes_read_back:
  assumes idx: "ToIndex rt request_index kInvalidDataViewAccessorOffset isolate = (Inr i, isolate1)"
    and conv: "DataViewConvertInput rt T value isolate1 = (Inr x, isolate2)"
    and att: "\<not> was_neutered (buffers isolate2 (JSDataView.buffer v))"
    and inv: "view_within v (buffers isolate2 (JSDataView.buffer v))"
    and inb: "i + sizeof T \<le> JSDataView.byte_length v"
    and set: "SetViewValue rt T v request_index le value method isolate = (r, isolate3)"
    and idx2: "ToIndex rt request_index2 kInvalidDataViewAccessorOffset isolate3 = (Inr i, isolate4)"
    and same: "buffers isolate4 (JSDataView.buffer v) = buffers isolate3 (JSDataView.buffer v)"
    and size: "sizeof T2 = sizeof T"
  shows "r = Inr Undefined \<and>
         GetViewValue rt T2 v request_index2 le2 method2 isolate3 =
           (Inr (AllocateResult (union_data (V8_TARGET_LITTLE_ENDIAN rt) T2
              (if le2 = le then union_bytes (V8_TARGET_LITTLE_ENDIAN rt) (the (DataViewConvertValue T x))
               else rev (union_bytes (V8_TARGET_LITTLE_ENDIAN rt) (the (DataViewConvertValue T x)))))),
            isolate4)"
proof -
  let ?a = "JSDataView.buffer v"
  let ?tle = "V8_TARGET_LITTLE_ENDIAN rt"
  let ?store = "backing_store (buffers isolate2 ?a)"
  let ?bytes = "union_bytes ?tle (the (DataViewConvertValue T x))"
  let ?w = "if le = ?tle then ?bytes else rev ?bytes"
  let ?new = "take (byte_offset v + i) ?store @ ?w @ drop (byte_offset v + i + sizeof T) ?store"
  obtain d where d: "DataViewConvertValue T x = Some d"
    using DataViewConvertInput_value [OF conv] by blast
  have lb: "length ?bytes = sizeof T"
    using length_union_bytes [OF d] by (simp add: d)
  then have lw: "length ?w = sizeof T" by simp
  have store: "byte_offset v + i + sizeof T \<le> length ?store"
    and sz: "length ?store < 2 ^ 64"
    using inv inb by (simp_all add: view_within_def)
  have res: "(r, isolate3) = (Inr Undefined,
      isolate2\<lparr>buffers := (buffers isolate2)(?a := (buffers isolate2 ?a)\<lparr>backing_store := ?new\<rparr>)\<rparr>)"
    using SetViewValue_attached [OF idx conv att inv, of le "method"] inb set
    by (simp add: Let_def)
  then have r: "r = Inr Undefined"
    and b3: "buffers isolate3 ?a = (buffers isolate2 ?a)\<lparr>backing_store := ?new\<rparr>"
    by simp_all
  have ln: "length ?new = length ?store"
    using store lw by simp
  have att4: "\<not> was_neutered (buffers isolate4 ?a)"
    using att by (simp add: same b3)
  have bs4: "backing_store (buffers isolate4 ?a) = ?new"
    by (simp add: same b3)
  have inv4: "view_within v (buffers isolate4 ?a)"
    unfolding view_within_def bs4 ln using inv [unfolded view_within_def] by blast
  have rd: "take (sizeof T) (drop (byte_offset v + i) (backing_store (buffers isolate4 ?a))) = ?w"
  proof -
    have "length (take (byte_offset v + i) ?store) = byte_offset v + i"
      using store by simp
    then have "drop (byte_offset v + i) ?new = ?w @ drop (byte_offset v + i + sizeof T) ?store"
      by (metis append_eq_conv_conj)
    then show ?thesis
      using lw by (simp only: bs4) simp
  qed
  have "GetViewValue rt T2 v request_index2 le2 method2 isolate3 =
      (Inr (AllocateResult (union_data ?tle T2 (if le2 = ?tle then ?w else rev ?w))), isolate4)"
    using GetViewValue_attached [OF idx2 att4 inv4, of T2 le2 method2] inb
    by (simp add: size rd Let_def)
  moreover have "(if le2 = ?tle then ?w else rev ?w) = (if le2 = le then ?bytes else rev ?bytes)"
    by auto
  ultimately show ?thesis using r by simp
qed

section \<open>Rounding to the nearest representable value\<close>

text \<open>
  \<open>ieee_round\<close> is related to the numbers the patterns stand for. In units of the
  least subnormal the value of a pattern is \<open>ieee_scaled\<close>, which grows strictly
  with the pattern; the magnitude to round lies between two neighbouring patterns,
  and \<open>ieee_round\<close> takes the nearer one, the even one half way
  (\<open>ieee_round_nearest\<close>), and the magnitude itself where it is representable
  (\<open>ieee_round_exact\<close>). From this: \<open>double_of_int\<close> and \<open>double_of_float\<close> are
  exact, \<open>static_cast_float\<close> yields the nearest single-precision value, and the
  truncation of \<open>DoubleToInt32\<close> is the truncation of the real value.
\<close>

lemma bit_length_upper: "n < 2 ^ bit_length n"
proof (induction n rule: bit_length.induct)
  case (1 n)
  show ?case
  proof (cases "n = 0")
    case True
    then show ?thesis by (simp add: bit_length.simps)
  next
    case False
    then have "n div 2 < 2 ^ bit_length (n div 2)" using 1 by simp
    then have "n < 2 * 2 ^ bit_length (n div 2)" by linarith
    then show ?thesis using False by (simp add: bit_length.simps [of n])
  qed
qed

lemma bit_length_lower: "n \<noteq> 0 \<Longrightarrow> 2 ^ (bit_length n - 1) \<le> n"
proof (induction n rule: bit_length.induct)
  case (1 n)
  show ?case
  proof (cases "n div 2 = 0")
    case True
    then have "n = 1" using 1(2) by linarith
    then show ?thesis by (simp add: bit_length.simps)
  next
    case False
    then have "2 ^ (bit_length (n div 2) - 1) \<le> n div 2" using 1 by simp
    moreover have "bit_length (n div 2) \<noteq> 0"
      using False by (simp add: bit_length.simps [of "n div 2"])
    ultimately have "2 ^ bit_length (n div 2) \<le> 2 * (n div 2)"
      by (cases "bit_length (n div 2)") simp_all
    then have "2 ^ bit_length (n div 2) \<le> n" by linarith
    then show ?thesis using 1(2) by (simp add: bit_length.simps [of n])
  qed
qed

lemma ieee_value_scaled:
  "ieee_value p w k = real (ieee_scaled p k) * 2 powi ieee_emin p w"
proof (cases "k div 2 ^ p = 0")
  case True
  then show ?thesis
    by (simp add: ieee_value_def ieee_fields_def ieee_scaled_def)
next
  case False
  then obtain E where E: "k div 2 ^ p = Suc E"
    by (cases "k div 2 ^ p") simp_all
  have "(2::real) powi (int (Suc E) - 1 + ieee_emin p w) = 2 ^ E * 2 powi ieee_emin p w"
    by (simp add: power_int_add)
  then show ?thesis
    using False by (simp add: ieee_value_def ieee_fields_def ieee_scaled_def E)
qed

lemma div_mod_block:
  fixes a n r :: nat
  assumes "r < n"
  shows "(a * n + r) div n = a" and "(a * n + r) mod n = r"
  using assms by simp_all

lemma ieee_scaled_normal:
  assumes "2 ^ p \<le> q" "q < 2 * 2 ^ p"
  shows "ieee_scaled p (s * 2 ^ p + q) = q * 2 ^ s"
proof -
  have q: "q = 2 ^ p + (q - 2 ^ p)" and lt: "q - 2 ^ p < 2 ^ p"
    using assms by simp_all
  have eq: "s * 2 ^ p + q = Suc s * 2 ^ p + (q - 2 ^ p)"
    using assms by simp
  have d: "(s * 2 ^ p + q) div 2 ^ p = Suc s" and m: "(s * 2 ^ p + q) mod 2 ^ p = q - 2 ^ p"
    unfolding eq using div_mod_block [OF lt, of "Suc s"] by blast+
  show ?thesis
    unfolding ieee_scaled_def d m using assms by simp
qed

lemma ieee_scaled_subnormal: "q < 2 ^ p \<Longrightarrow> ieee_scaled p q = q"
  by (simp add: ieee_scaled_def)

lemma ieee_scaled_strict_mono:
  assumes "j < k"
  shows "ieee_scaled p j < ieee_scaled p k"
proof -
  let ?Ej = "j div 2 ^ p" and ?Ek = "k div 2 ^ p"
  let ?fj = "j mod 2 ^ p" and ?fk = "k mod 2 ^ p"
  have E: "?Ej \<le> ?Ek" using assms by (intro div_le_mono) simp
  have fj: "?fj < 2 ^ p" and fk: "?fk < 2 ^ p" by simp_all
  show ?thesis
  proof (cases "?Ej = ?Ek")
    case True
    have "?Ej * 2 ^ p + ?fj < ?Ek * 2 ^ p + ?fk"
      using assms by (simp only: div_mult_mod_eq)
    then have "?fj < ?fk" using True by simp
    then show ?thesis using True by (simp add: ieee_scaled_def)
  next
    case False
    then have lt: "?Ej < ?Ek" using E by simp
    then obtain Ek where Ek: "?Ek = Suc Ek" by (cases ?Ek) simp_all
    have big: "2 ^ p * 2 ^ Ek \<le> ieee_scaled p k"
      by (simp add: ieee_scaled_def Ek)
    show ?thesis
    proof (cases "?Ej = 0")
      case True
      then have "ieee_scaled p j < 2 ^ p" using fj by (simp add: ieee_scaled_def)
      moreover have "(2::nat) ^ p \<le> 2 ^ p * 2 ^ Ek" by simp
      ultimately show ?thesis using big by linarith
    next
      case F: False
      then obtain Ej where Ej: "?Ej = Suc Ej" by (cases ?Ej) simp_all
      have "Suc Ej \<le> Ek" using lt Ej Ek by simp
      then have pw: "(2::nat) ^ Suc Ej \<le> 2 ^ Ek" by (rule power_increasing) simp
      have "ieee_scaled p j = (2 ^ p + ?fj) * 2 ^ Ej"
        by (simp add: ieee_scaled_def Ej)
      also have "\<dots> < (2 * 2 ^ p) * 2 ^ Ej"
        using fj by (intro mult_strict_right_mono) simp_all
      also have "\<dots> = 2 ^ p * 2 ^ Suc Ej" by simp
      also have "\<dots> \<le> 2 ^ p * 2 ^ Ek" using pw by (rule mult_left_mono) simp
      finally show ?thesis using big by linarith
    qed
  qed
qed

lemma ieee_scaled_mono:
  assumes "j \<le> k"
  shows "ieee_scaled p j \<le> ieee_scaled p k"
proof (cases "j = k")
  case True
  then show ?thesis by simp
next
  case False
  then have "j < k" using assms by simp
  then show ?thesis using ieee_scaled_strict_mono [of j k p] by simp
qed

lemma bit_length_le: "n < 2 ^ a \<Longrightarrow> bit_length n \<le> a"
proof (cases "n = 0")
  case True
  then show ?thesis by (simp add: bit_length.simps)
next
  case False
  assume "n < 2 ^ a"
  moreover have "2 ^ (bit_length n - 1) \<le> n" using False by (rule bit_length_lower)
  ultimately have "(2::nat) ^ (bit_length n - 1) < 2 ^ a" by linarith
  then have "bit_length n - 1 < a" by (simp add: power_strict_increasing_iff)
  then show ?thesis by linarith
qed

lemma ieee_round_bracket:
  fixes p w m :: nat and e :: int
  defines "u \<equiv> min e (ieee_emin p w)"
  defines "d \<equiv> m * 2 ^ nat (e - u)"
  defines "t \<equiv> nat (ieee_emin p w - u)"
  obtains k s r where
    "ieee_round p w m e =
       min (if 2 ^ s < 2 * r \<or> (2 * r = 2 ^ s \<and> odd k) then Suc k else k) ((2 ^ w - 1) * 2 ^ p)"
    and "d = ieee_scaled p k * 2 ^ t + r"
    and "r < 2 ^ s"
    and "ieee_scaled p (Suc k) * 2 ^ t = ieee_scaled p k * 2 ^ t + 2 ^ s"
    and "s = max t (bit_length d - (p + 1))"
    and "r = d mod 2 ^ s"
proof -
  define s where "s = max t (bit_length d - (p + 1))"
  define q where "q = d div 2 ^ s"
  define r where "r = d mod 2 ^ s"
  define k where "k = (s - t) * 2 ^ p + q"
  define k' where "k' = (if 2 ^ s < 2 * r \<or> (2 * r = 2 ^ s \<and> odd k) then k + 1 else k)"
  let ?inf = "(2 ^ w - 1) * 2 ^ p"
  let ?V = "\<lambda>j. ieee_scaled p j * 2 ^ t"
  have round: "ieee_round p w m e = min k' ?inf"
    unfolding ieee_round_def Let_def k'_def k_def q_def r_def s_def d_def t_def u_def ..
  have d_eq: "d = q * 2 ^ s + r"
    unfolding q_def r_def by (rule div_mult_mod_eq [symmetric])
  have r_lt: "r < 2 ^ s"
    by (simp add: r_def)
  have ts: "t \<le> s" by (simp add: s_def)
  have "bit_length d \<le> s + (p + 1)" by (simp add: s_def)
  then have "(2::nat) ^ bit_length d \<le> 2 ^ (s + (p + 1))"
    by (rule power_increasing) simp
  then have "d < 2 ^ (s + (p + 1))"
    using bit_length_upper [of d] by linarith
  then have "d < 2 ^ (s + (p + 1))" .
  moreover have "(2::nat) ^ (s + (p + 1)) = (2 * 2 ^ p) * 2 ^ s"
    by (simp add: power_add)
  ultimately have "d < (2 * 2 ^ p) * 2 ^ s"
    by simp
  then have q_lt: "q < 2 * 2 ^ p"
    unfolding q_def by (rule less_mult_imp_div_less)
  have q_ge: "2 ^ p \<le> q" if "t < s"
  proof -
    have bl: "bit_length d = s + (p + 1)" using that by (simp add: s_def max_def split: if_splits)
    have "d \<noteq> 0"
    proof
      assume "d = 0"
      then have "bit_length d = 0" by (simp add: bit_length.simps)
      then show False using bl by simp
    qed
    from this have "2 ^ (bit_length d - 1) \<le> d" by (rule bit_length_lower)
    moreover have "(2::nat) ^ (bit_length d - 1) = 2 ^ p * 2 ^ s"
      by (simp add: bl power_add)
    ultimately have "2 ^ p * 2 ^ s \<le> d" by simp
    then have "(2 ^ p * 2 ^ s) div 2 ^ s \<le> d div 2 ^ s" by (rule div_le_mono)
    then show ?thesis by (simp add: q_def)
  qed
  have pw: "(2::nat) ^ (s - t) * 2 ^ t = 2 ^ s"
    using ts by (simp flip: power_add)
  have form: "?V ((s - t) * 2 ^ p + x) = x * 2 ^ s" if "x \<le> 2 * 2 ^ p" "t < s \<longrightarrow> 2 ^ p \<le> x" for x
  proof (cases "x < 2 ^ p")
    case True
    then have "s = t" using that(2) ts by auto
    then show ?thesis using True by (simp add: ieee_scaled_subnormal)
  next
    case False
    show ?thesis
    proof (cases "x < 2 * 2 ^ p")
      case True
      then have "ieee_scaled p ((s - t) * 2 ^ p + x) = x * 2 ^ (s - t)"
        using False by (simp add: ieee_scaled_normal)
      moreover have "x * 2 ^ (s - t) * 2 ^ t = x * (2 ^ (s - t) * 2 ^ t)" by simp
      ultimately show ?thesis by (simp only: pw)
    next
      case F: False
      then have x: "x = 2 * 2 ^ p" using that(1) by simp
      have eq: "(s - t) * 2 ^ p + x = Suc (s - t) * 2 ^ p + 2 ^ p" by (simp add: x)
      have "ieee_scaled p (Suc (s - t) * 2 ^ p + 2 ^ p) = 2 ^ p * 2 ^ Suc (s - t)"
        by (rule ieee_scaled_normal) simp_all
      then have "ieee_scaled p ((s - t) * 2 ^ p + x) = 2 ^ p * 2 ^ Suc (s - t)"
        by (simp only: eq)
      moreover have "(2::nat) ^ p * 2 ^ Suc (s - t) * 2 ^ t = (2 * 2 ^ p) * (2 ^ (s - t) * 2 ^ t)"
        by simp
      ultimately show ?thesis by (simp only: pw x)
    qed
  qed
  have Vk: "?V k = q * 2 ^ s"
    unfolding k_def
  proof (rule form)
    show "q \<le> 2 * 2 ^ p" using q_lt by simp
    show "t < s \<longrightarrow> 2 ^ p \<le> q" using q_ge by blast
  qed
  have Vk1: "?V (Suc k) = (q + 1) * 2 ^ s"
  proof -
    have "?V ((s - t) * 2 ^ p + (q + 1)) = (q + 1) * 2 ^ s"
    proof (rule form)
      show "q + 1 \<le> 2 * 2 ^ p" using q_lt by simp
      show "t < s \<longrightarrow> 2 ^ p \<le> q + 1" using q_ge by fastforce
    qed
    then show ?thesis by (simp add: k_def)
  qed
  have gap: "?V (Suc k) = ?V k + 2 ^ s"
    by (simp add: Vk Vk1)
  have dr: "d = ?V k + r"
    by (simp add: Vk d_eq)
  have round': "ieee_round p w m e =
       min (if 2 ^ s < 2 * r \<or> (2 * r = 2 ^ s \<and> odd k) then Suc k else k) ?inf"
    unfolding round k'_def by simp
  show thesis
    using that [OF round' dr r_lt gap s_def r_def] .
qed

lemma ieee_round_scaled:
  fixes p w m :: nat and e :: int
  defines "u \<equiv> min e (ieee_emin p w)"
  defines "d \<equiv> m * 2 ^ nat (e - u)"
  defines "t \<equiv> nat (ieee_emin p w - u)"
  defines "res \<equiv> ieee_round p w m e"
  shows "j \<le> (2 ^ w - 1) * 2 ^ p \<Longrightarrow>
           \<bar>int (ieee_scaled p res * 2 ^ t) - int d\<bar> \<le> \<bar>int (ieee_scaled p j * 2 ^ t) - int d\<bar>"
    and "j \<le> (2 ^ w - 1) * 2 ^ p \<Longrightarrow> j \<noteq> res \<Longrightarrow>
           \<bar>int (ieee_scaled p j * 2 ^ t) - int d\<bar> = \<bar>int (ieee_scaled p res * 2 ^ t) - int d\<bar> \<Longrightarrow>
           even res"
    and "2 ^ max t (bit_length d - (p + 1)) dvd d \<Longrightarrow>
         d < ieee_scaled p ((2 ^ w - 1) * 2 ^ p) * 2 ^ t \<Longrightarrow>
           ieee_scaled p res * 2 ^ t = d \<and> res < (2 ^ w - 1) * 2 ^ p"
proof -
  let ?inf = "(2 ^ w - 1) * 2 ^ p"
  let ?V = "\<lambda>j. ieee_scaled p j * 2 ^ t"
  obtain k s r where round: "res =
       min (if 2 ^ s < 2 * r \<or> (2 * r = 2 ^ s \<and> odd k) then Suc k else k) ?inf"
    and dr: "d = ?V k + r"
    and r_lt: "r < 2 ^ s"
    and gap: "?V (Suc k) = ?V k + 2 ^ s"
    and s: "s = max t (bit_length d - (p + 1))"
    and r: "r = d mod 2 ^ s"
    unfolding res_def d_def t_def u_def by (rule ieee_round_bracket)
  define k' where "k' = (if 2 ^ s < 2 * r \<or> (2 * r = 2 ^ s \<and> odd k) then Suc k else k)"
  have res: "res = min k' ?inf" by (simp only: round k'_def)
  have strict: "?V a < ?V b" if "a < b" for a b
    using ieee_scaled_strict_mono [OF that, of p] by simp
  have mono: "?V a \<le> ?V b" if "a \<le> b" for a b
    using ieee_scaled_mono [OF that, of p] by simp
  define A where "A = int (?V k)"
  define B where "B = int (?V (Suc k))"
  define R where "R = int r"
  define S where "S = int (2 ^ s)"
  define D where "D = int d"
  have 1: "B = A + S" unfolding A_def B_def S_def by (simp only: gap of_nat_add)
  have 2: "D = A + R" unfolding A_def D_def R_def using dr by (metis of_nat_add)
  have 3: "R < S" unfolding R_def S_def using r_lt by (simp only: of_nat_less_iff)
  have 4: "0 \<le> R" unfolding R_def by simp
  have choice: "(k' = k \<and> 2 * R \<le> S \<and> (2 * R = S \<longrightarrow> even k)) \<or>
                (k' = Suc k \<and> S \<le> 2 * R \<and> (2 * R = S \<longrightarrow> odd k))"
  proof (cases "2 ^ s < 2 * r \<or> (2 * r = 2 ^ s \<and> odd k)")
    case True
    then have "k' = Suc k" by (simp add: k'_def)
    moreover have "2 ^ s \<le> 2 * r" using True by auto
    then have "S \<le> 2 * R" unfolding S_def R_def by linarith
    moreover have "2 * R = S \<longrightarrow> odd k"
    proof
      assume "2 * R = S"
      then have "2 * r = 2 ^ s" unfolding S_def R_def by linarith
      then show "odd k" using True by auto
    qed
    ultimately show ?thesis by blast
  next
    case False
    then have "k' = k" by (simp add: k'_def)
    moreover have "2 * r \<le> 2 ^ s" using False by auto
    then have "2 * R \<le> S" unfolding S_def R_def by linarith
    moreover have "2 * R = S \<longrightarrow> even k"
    proof
      assume "2 * R = S"
      then have "2 * r = 2 ^ s" unfolding S_def R_def by linarith
      then show "even k" using False by auto
    qed
    ultimately show ?thesis by blast
  qed
  have pos: "(i < k \<and> int (?V i) < A) \<or> (i = k \<and> int (?V i) = A) \<or>
             (i = Suc k \<and> int (?V i) = B) \<or> (Suc k < i \<and> B < int (?V i))" for i
  proof -
    consider "i < k" | "i = k" | "i = Suc k" | "Suc k < i" by linarith
    then show ?thesis
    proof cases
      case 1
      then have "?V i < ?V k" by (rule strict)
      then have "int (?V i) < A" unfolding A_def by (simp only: of_nat_less_iff)
      then show ?thesis using 1 by blast
    next
      case 2
      then show ?thesis unfolding A_def by blast
    next
      case 3
      then show ?thesis unfolding B_def by blast
    next
      case 4
      then have "?V (Suc k) < ?V i" by (rule strict)
      then have "B < int (?V i)" unfolding B_def by (simp only: of_nat_less_iff)
      then show ?thesis using 4 by blast
    qed
  qed
  have near': "\<bar>int (?V k') - D\<bar> \<le> \<bar>int (?V i) - D\<bar>" for i
  proof -
    define I where "I = int (?V i)"
    define K where "K = int (?V k')"
    have 5: "(K = A \<and> 2 * R \<le> S) \<or> (K = B \<and> S \<le> 2 * R)"
      using choice unfolding K_def A_def B_def by auto
    have 6: "I \<le> A \<or> B \<le> I"
      using pos [of i] unfolding I_def by auto
    have "\<bar>K - D\<bar> \<le> \<bar>I - D\<bar>"
      using 1 2 3 4 5 6 by linarith
    then show ?thesis unfolding K_def I_def .
  qed
  have tie': "even k'" if "i \<noteq> k'" "\<bar>int (?V i) - D\<bar> = \<bar>int (?V k') - D\<bar>" for i
  proof -
    define I where "I = int (?V i)"
    from choice show ?thesis
    proof (elim disjE conjE)
      assume c: "k' = k" "2 * R \<le> S" "2 * R = S \<longrightarrow> even k"
      have eq: "\<bar>I - D\<bar> = \<bar>A - D\<bar>"
        using that(2) unfolding I_def A_def c(1) .
      have "(i < k \<and> I < A) \<or> (i = Suc k \<and> I = B) \<or> (Suc k < i \<and> B < I)"
        using pos [of i] that(1) unfolding I_def c(1) by blast
      then have "2 * R = S" using eq 1 2 3 4 c(2) by linarith
      then show ?thesis using c by simp
    next
      assume c: "k' = Suc k" "S \<le> 2 * R" "2 * R = S \<longrightarrow> odd k"
      have eq: "\<bar>I - D\<bar> = \<bar>B - D\<bar>"
        using that(2) unfolding I_def B_def c(1) .
      have "(i < k \<and> I < A) \<or> (i = k \<and> I = A) \<or> (Suc k < i \<and> B < I)"
        using pos [of i] that(1) unfolding I_def c(1) by blast
      then have "2 * R = S" using eq 1 2 3 4 c(2) by linarith
      then show ?thesis using c by simp
    qed
  qed
  have kk: "k \<le> k'" "k' \<le> Suc k" by (simp_all add: k'_def)
  have lo: "int (?V k) \<le> D" using 2 4 unfolding A_def by linarith
  show "\<bar>int (?V res) - int d\<bar> \<le> \<bar>int (?V j) - int d\<bar>" if j: "j \<le> ?inf"
  proof (cases "k' \<le> ?inf")
    case True
    then have "res = k'" by (simp add: res min_def)
    then show ?thesis using near' [of j] unfolding D_def by simp
  next
    case False
    then have r: "res = ?inf" by (simp add: res min_def)
    have "?inf \<le> k" using False kk by linarith
    then have "?V ?inf \<le> ?V k" by (rule mono)
    then have a: "int (?V ?inf) \<le> int (?V k)" by (simp only: of_nat_le_iff)
    have "?V j \<le> ?V ?inf" using j by (rule mono)
    then have b: "int (?V j) \<le> int (?V ?inf)" by (simp only: of_nat_le_iff)
    show ?thesis unfolding r using a b lo unfolding D_def by linarith
  qed
  show "even res" if j: "j \<le> ?inf" and ne: "j \<noteq> res"
    and eq: "\<bar>int (?V j) - int d\<bar> = \<bar>int (?V res) - int d\<bar>"
  proof (cases "k' \<le> ?inf")
    case True
    then have "res = k'" by (simp add: res min_def)
    then show ?thesis using tie' [of j] ne eq unfolding D_def by simp
  next
    case False
    then have r: "res = ?inf" by (simp add: res min_def)
    have "?inf \<le> k" using False kk by linarith
    then have "?V ?inf \<le> ?V k" by (rule mono)
    then have a: "int (?V ?inf) \<le> int (?V k)" by (simp only: of_nat_le_iff)
    have "j < ?inf" using j ne r by simp
    then have "?V j < ?V ?inf" by (rule strict)
    then have b: "int (?V j) < int (?V ?inf)" by (simp only: of_nat_less_iff)
    have False using eq a b lo unfolding r D_def by linarith
    then show ?thesis ..
  qed
  show "?V res = d \<and> res < ?inf"
    if dvd: "2 ^ max t (bit_length d - (p + 1)) dvd d" and small: "d < ?V ?inf"
  proof -
    have "r = 0" using dvd unfolding r s by (simp add: mod_eq_0_iff_dvd)
    then have k': "k' = k" by (simp add: k'_def)
    have d: "d = ?V k" using dr \<open>r = 0\<close> by simp
    have "k < ?inf"
    proof (rule ccontr)
      assume "\<not> k < ?inf"
      then have "?inf \<le> k" by simp
      then have "?V ?inf \<le> ?V k" by (rule mono)
      then show False using small d by simp
    qed
    then have "res = k" by (simp add: res k' min_def)
    then show ?thesis using d \<open>k < ?inf\<close> by simp
  qed
qed

lemma bit_nat_below:
  fixes k :: nat
  assumes "k < 2 ^ m" "bit k n"
  shows "n < m"
proof -
  have "take_bit m k = k" using assms(1) by (simp add: take_bit_nat_eq_self)
  then have "bit (take_bit m k) n" using assms(2) by simp
  then show ?thesis by (simp add: bit_take_bit_iff)
qed

lemma take_bit_sign_or:
  fixes k :: nat
  assumes "k < 2 ^ 31"
  shows "take_bit 31 ((if b then push_bit 31 1 else 0) OR word_of_nat k :: 32 word) = word_of_nat k"
proof -
  have s: "take_bit 31 (if b then push_bit 31 1 else 0 :: 32 word) = 0"
    by (simp only: take_bit_push_bit if_distrib [of "take_bit 31"]) simp
  have "take_bit 31 (word_of_nat k :: 32 word) = word_of_nat (take_bit 31 k)"
    by (simp only: of_nat_take_bit)
  also have "take_bit 31 k = k"
    using assms by (simp add: take_bit_nat_eq_self)
  finally have k: "take_bit 31 (word_of_nat k :: 32 word) = word_of_nat k" .
  show ?thesis
    by (simp only: take_bit_or s k) simp
qed

lemma float_magnitude_sign_or:
  fixes k :: nat
  assumes "k < 2 ^ 31"
  shows "float_magnitude ((if b then push_bit 31 1 else 0) OR word_of_nat k) = k"
proof -
  have "unat (word_of_nat k :: 32 word) = k"
    using assms by (simp add: unat_of_nat)
  then show ?thesis
    by (simp only: float_magnitude_def take_bit_sign_or [OF assms])
qed

lemma float_sign_sign_or:
  fixes k :: nat
  assumes "k < 2 ^ 31"
  shows "float_sign ((if b then push_bit 31 1 else 0) OR word_of_nat k) = b"
proof -
  have "\<not> bit (word_of_nat k :: 32 word) 31"
    using bit_nat_below [OF assms, of 31] by (auto simp: bit_of_nat_iff)
  moreover have "bit (if b then push_bit 31 1 else 0 :: 32 word) 31 = b"
    by (simp add: bit_push_bit_iff del: push_bit_of_1)
  ultimately show ?thesis
    by (simp only: float_sign_def bit_or_iff) simp
qed

lemma ieee_rescale:
  fixes p w m :: nat and e :: int
  defines "u \<equiv> min e (ieee_emin p w)"
  shows "real m * 2 powi e = real (m * 2 ^ nat (e - u)) * 2 powi u"
    and "ieee_value p w i = real (ieee_scaled p i * 2 ^ nat (ieee_emin p w - u)) * 2 powi u"
proof -
  have split: "(2::real) powi a = 2 ^ nat (a - u) * 2 powi u" if "u \<le> a" for a
  proof -
    have "(2::real) powi a = 2 powi ((a - u) + u)" by simp
    also have "\<dots> = 2 powi (a - u) * 2 powi u" by (rule power_int_add) simp
    also have "2 powi (a - u) = (2::real) ^ nat (a - u)"
      using that by (simp add: power_int_nonneg_exp)
    finally show ?thesis .
  qed
  show "real m * 2 powi e = real (m * 2 ^ nat (e - u)) * 2 powi u"
    using split [of e] by (simp add: u_def)
  show "ieee_value p w i = real (ieee_scaled p i * 2 ^ nat (ieee_emin p w - u)) * 2 powi u"
    using split [of "ieee_emin p w"] by (simp add: ieee_value_scaled u_def)
qed

lemma abs_diff_scaled:
  fixes c :: real
  assumes "0 < c"
  shows "\<bar>real a * c - real b * c\<bar> = real_of_int \<bar>int a - int b\<bar> * c"
proof -
  have "real a * c - real b * c = (real a - real b) * c"
    by (rule left_diff_distrib [symmetric])
  then have "\<bar>real a * c - real b * c\<bar> = \<bar>real a - real b\<bar> * \<bar>c\<bar>"
    by (simp only: abs_mult)
  moreover have "\<bar>c\<bar> = c" using assms by simp
  moreover have "real a - real b = real_of_int (int a - int b)"
    by (simp only: of_int_diff of_int_of_nat_eq)
  then have "\<bar>real a - real b\<bar> = real_of_int \<bar>int a - int b\<bar>"
    by (simp only: of_int_abs)
  ultimately show ?thesis by (simp only:)
qed

lemma ieee_round_nearest:
  assumes j: "j \<le> (2 ^ w - 1) * 2 ^ p"
  shows "\<bar>ieee_value p w (ieee_round p w m e) - real m * 2 powi e\<bar>
           \<le> \<bar>ieee_value p w j - real m * 2 powi e\<bar>"
    and "j \<noteq> ieee_round p w m e \<Longrightarrow>
         \<bar>ieee_value p w j - real m * 2 powi e\<bar> =
           \<bar>ieee_value p w (ieee_round p w m e) - real m * 2 powi e\<bar> \<Longrightarrow>
         even (ieee_round p w m e)"
proof -
  define u where "u = min e (ieee_emin p w)"
  define d where "d = m * 2 ^ nat (e - u)"
  define t where "t = nat (ieee_emin p w - u)"
  define c :: real where "c = 2 powi u"
  let ?res = "ieee_round p w m e"
  have c: "0 < c" by (simp add: c_def)
  have x: "real m * 2 powi e = real d * c"
    unfolding d_def c_def u_def by (rule ieee_rescale(1))
  have v: "ieee_value p w i = real (ieee_scaled p i * 2 ^ t) * c" for i
    unfolding t_def c_def u_def by (rule ieee_rescale(2))
  have dist: "\<bar>ieee_value p w i - real m * 2 powi e\<bar> =
      real_of_int \<bar>int (ieee_scaled p i * 2 ^ t) - int d\<bar> * c" for i
    unfolding x v by (rule abs_diff_scaled [OF c])
  have "\<bar>int (ieee_scaled p ?res * 2 ^ t) - int d\<bar> \<le> \<bar>int (ieee_scaled p j * 2 ^ t) - int d\<bar>"
    unfolding d_def t_def u_def by (rule ieee_round_scaled(1) [OF j])
  then have "real_of_int \<bar>int (ieee_scaled p ?res * 2 ^ t) - int d\<bar>
           \<le> real_of_int \<bar>int (ieee_scaled p j * 2 ^ t) - int d\<bar>"
    by (simp only: of_int_le_iff)
  then show "\<bar>ieee_value p w ?res - real m * 2 powi e\<bar> \<le> \<bar>ieee_value p w j - real m * 2 powi e\<bar>"
    unfolding dist using c by (simp only: mult_le_cancel_right_pos)
  show "even ?res" if ne: "j \<noteq> ?res"
    and eq: "\<bar>ieee_value p w j - real m * 2 powi e\<bar> = \<bar>ieee_value p w ?res - real m * 2 powi e\<bar>"
  proof -
    have "real_of_int \<bar>int (ieee_scaled p j * 2 ^ t) - int d\<bar> * c =
          real_of_int \<bar>int (ieee_scaled p ?res * 2 ^ t) - int d\<bar> * c"
      using eq unfolding dist .
    then have "real_of_int \<bar>int (ieee_scaled p j * 2 ^ t) - int d\<bar> =
          real_of_int \<bar>int (ieee_scaled p ?res * 2 ^ t) - int d\<bar>"
      using c by simp
    then have "\<bar>int (ieee_scaled p j * 2 ^ t) - int d\<bar> = \<bar>int (ieee_scaled p ?res * 2 ^ t) - int d\<bar>"
      by (simp only: of_int_eq_iff)
    then show ?thesis
      unfolding d_def t_def u_def by (rule ieee_round_scaled(2) [OF j ne])
  qed
qed

lemma ieee_round_exact:
  assumes e: "ieee_emin p w \<le> e"
    and m: "m < 2 * 2 ^ p"
    and small: "m * 2 ^ nat (e - ieee_emin p w) < ieee_scaled p ((2 ^ w - 1) * 2 ^ p)"
  shows "ieee_value p w (ieee_round p w m e) = real m * 2 powi e"
    and "ieee_round p w m e < (2 ^ w - 1) * 2 ^ p"
proof -
  define n where "n = nat (e - ieee_emin p w)"
  define d where "d = m * 2 ^ n"
  have u: "min e (ieee_emin p w) = ieee_emin p w" using e by simp
  have "d < (2 * 2 ^ p) * 2 ^ n"
    unfolding d_def using m by (intro mult_strict_right_mono) simp_all
  also have "\<dots> = 2 ^ (p + 1 + n)" by (simp add: power_add)
  finally have "bit_length d \<le> p + 1 + n" by (rule bit_length_le)
  then have "max 0 (bit_length d - (p + 1)) \<le> n" by simp
  then have "(2::nat) ^ max 0 (bit_length d - (p + 1)) dvd 2 ^ n"
    by (rule le_imp_power_dvd)
  then have dvd: "2 ^ max (nat (ieee_emin p w - min e (ieee_emin p w)))
        (bit_length (m * 2 ^ nat (e - min e (ieee_emin p w))) - (p + 1))
      dvd m * 2 ^ nat (e - min e (ieee_emin p w))"
    unfolding u by (simp add: d_def n_def)
  have small': "m * 2 ^ nat (e - min e (ieee_emin p w))
      < ieee_scaled p ((2 ^ w - 1) * 2 ^ p) * 2 ^ nat (ieee_emin p w - min e (ieee_emin p w))"
    unfolding u using small by simp
  note ex = ieee_round_scaled(3) [OF dvd small']
  have "ieee_value p w (ieee_round p w m e) =
      real (ieee_scaled p (ieee_round p w m e) * 2 ^ nat (ieee_emin p w - min e (ieee_emin p w))) *
        2 powi min e (ieee_emin p w)"
    by (rule ieee_rescale(2))
  also have "\<dots> = real (m * 2 ^ nat (e - min e (ieee_emin p w))) * 2 powi min e (ieee_emin p w)"
    using ex by simp
  also have "\<dots> = real m * 2 powi e"
    by (rule ieee_rescale(1) [symmetric])
  finally show "ieee_value p w (ieee_round p w m e) = real m * 2 powi e" .
  show "ieee_round p w m e < (2 ^ w - 1) * 2 ^ p"
    using ex by simp
qed

lemma float_sign_magnitude_or:
  fixes w :: float
  assumes "take_bit 31 w = w"
  shows "float_magnitude ((if b then push_bit 31 1 else 0) OR w) = unat w"
    and "float_sign ((if b then push_bit 31 1 else 0) OR w) = b"
proof -
  have s: "take_bit 31 (if b then push_bit 31 1 else 0 :: float) = 0"
    by (simp only: take_bit_push_bit if_distrib [of "take_bit 31"]) simp
  have "take_bit 31 ((if b then push_bit 31 1 else 0) OR w) = w"
    by (simp only: take_bit_or s assms) simp
  then show "float_magnitude ((if b then push_bit 31 1 else 0) OR w) = unat w"
    by (simp only: float_magnitude_def)
  have "\<not> bit (take_bit 31 w) 31"
    by (simp add: bit_take_bit_iff)
  then have "\<not> bit w 31" by (simp only: assms not_False_eq_True)
  moreover have "bit (if b then push_bit 31 1 else 0 :: float) 31 = b"
    by (simp add: bit_push_bit_iff del: push_bit_of_1)
  ultimately show "float_sign ((if b then push_bit 31 1 else 0) OR w) = b"
    by (simp only: float_sign_def bit_or_iff) simp
qed

lemma double_sign_magnitude_or:
  fixes w :: double
  assumes "take_bit 63 w = w"
  shows "double_magnitude ((if b then push_bit 63 1 else 0) OR w) = unat w"
    and "double_sign ((if b then push_bit 63 1 else 0) OR w) = b"
proof -
  have s: "take_bit 63 (if b then push_bit 63 1 else 0 :: double) = 0"
    by (simp only: take_bit_push_bit if_distrib [of "take_bit 63"]) simp
  have "take_bit 63 ((if b then push_bit 63 1 else 0) OR w) = w"
    by (simp only: take_bit_or s assms) simp
  then show "double_magnitude ((if b then push_bit 63 1 else 0) OR w) = unat w"
    by (simp only: double_magnitude_def)
  have "\<not> bit (take_bit 63 w) 63"
    by (simp add: bit_take_bit_iff)
  then have "\<not> bit w 63" by (simp only: assms not_False_eq_True)
  moreover have "bit (if b then push_bit 63 1 else 0 :: double) 63 = b"
    by (simp add: bit_push_bit_iff del: push_bit_of_1)
  ultimately show "double_sign ((if b then push_bit 63 1 else 0) OR w) = b"
    by (simp only: double_sign_def bit_or_iff) simp
qed

lemma take_bit_word_of_nat:
  fixes k :: nat
  assumes "k < 2 ^ n"
  shows "take_bit n (word_of_nat k :: 'a::len word) = word_of_nat k"
proof -
  have "take_bit n (word_of_nat k :: 'a word) = word_of_nat (take_bit n k)"
    by (simp only: of_nat_take_bit)
  also have "take_bit n k = k"
    using assms by (simp add: take_bit_nat_eq_self)
  finally show ?thesis .
qed

lemma unat_or_ge:
  fixes a b :: "'a::len word"
  shows "unat a \<le> unat (a OR b)"
  using le_word_or2 [of a b] by (simp only: word_less_eq_iff_unsigned [where ?'a = nat])

lemma floor_scaled:
  "\<lfloor>real m * 2 powi e\<rfloor> = (if 0 \<le> e then int m * 2 ^ nat e else int m div 2 ^ nat (- e))"
proof (cases "0 \<le> e")
  case True
  then have "real m * 2 powi e = real_of_int (int m * 2 ^ nat e)"
    by (simp add: power_int_def)
  then have "\<lfloor>real m * 2 powi e\<rfloor> = int m * 2 ^ nat e"
    by (simp only: floor_of_int)
  with True show ?thesis by simp
next
  case False
  then have "real m * 2 powi e = real m / real (2 ^ nat (- e))"
    by (simp add: power_int_def field_simps)
  then have "\<lfloor>real m * 2 powi e\<rfloor> = int (m div 2 ^ nat (- e))"
    by (simp only: floor_divide_of_nat_eq)
  also have "\<dots> = int m div 2 ^ nat (- e)"
    by (simp add: zdiv_int)
  finally show ?thesis using False by simp
qed

lemma truncate_double_value: "truncate_toward_zero (double_value x) = double_truncate x"
proof -
  obtain m e where f: "ieee_fields 52 11 (double_magnitude x) = (m, e)"
    by (cases "ieee_fields 52 11 (double_magnitude x)")
  define v where "v = real m * 2 powi e"
  have v0: "0 \<le> v" unfolding v_def by simp
  have fl: "\<lfloor>v\<rfloor> = (if 0 \<le> e then int m * 2 ^ nat e else int m div 2 ^ nat (- e))"
    unfolding v_def by (rule floor_scaled)
  have iv: "ieee_value 52 11 (double_magnitude x) = v"
    by (simp only: ieee_value_def f prod.case v_def)
  have dv: "double_value x = (if double_sign x then - 1 else 1) * v"
    by (simp only: double_value_def iv)
  have dt: "double_truncate x = (if double_sign x then - 1 else 1) * \<lfloor>v\<rfloor>"
    by (simp only: double_truncate_def f fl prod.case)
  show ?thesis
  proof (cases "double_sign x")
    case False
    with v0 show ?thesis by (simp add: dv dt truncate_toward_zero_def)
  next
    case True
    show ?thesis
    proof (cases "v = 0")
      case True
      with \<open>double_sign x\<close> show ?thesis by (simp add: dv dt truncate_toward_zero_def)
    next
      case False
      with v0 have "0 < v" by simp
      with \<open>double_sign x\<close> show ?thesis by (simp add: dv dt truncate_toward_zero_def)
    qed
  qed
qed

lemma word_of_int_mod_32: "(word_of_int (k mod 2 ^ 32) :: 32 word) = word_of_int k"
proof -
  have "take_bit LENGTH(32) (k mod 2 ^ 32) = take_bit LENGTH(32) k"
    by (simp add: take_bit_eq_mod)
  then show ?thesis by (simp only: word_of_int_eq_iff)
qed

lemma DoubleToInt32_truncate_mod: "DoubleToInt32 y = word_of_int (truncate_mod_2_32 y)"
proof (cases "double_is_finite y")
  case True
  then show ?thesis
    by (simp only: DoubleToInt32_def truncate_mod_2_32_def truncate_double_value if_True
        word_of_int_mod_32)
next
  case False
  then show ?thesis by (simp only: DoubleToInt32_def truncate_mod_2_32_def if_False word_of_int_0)
qed

lemma truncate_mod_2_32_range: "0 \<le> truncate_mod_2_32 x \<and> truncate_mod_2_32 x < 2 ^ 32"
  by (simp add: truncate_mod_2_32_def)

lemma uint_DoubleToInt32: "uint (DoubleToInt32 x) = truncate_mod_2_32 x"
proof -
  have "uint (word_of_int (truncate_mod_2_32 x) :: 32 word) = take_bit LENGTH(32) (truncate_mod_2_32 x)"
    by (simp only: uint_word_of_int_eq)
  also have "\<dots> = truncate_mod_2_32 x mod 2 ^ 32"
    by (simp add: take_bit_eq_mod)
  also have "\<dots> = truncate_mod_2_32 x"
    using truncate_mod_2_32_range [of x] by (simp only: mod_pos_pos_trivial)
  finally show ?thesis by (simp only: DoubleToInt32_truncate_mod)
qed

lemma ieee_round_le: "ieee_round p w m e \<le> (2 ^ w - 1) * 2 ^ p"
  unfolding ieee_round_def Let_def by (rule min.cobounded2)

lemma ieee_scaled_infinity_double:
  "ieee_scaled 52 ((2 ^ 11 - 1) * 2 ^ 52) = 2 ^ 52 * 2 ^ 2046"
proof -
  have "ieee_scaled 52 (2046 * 2 ^ 52 + 2 ^ 52) = 2 ^ 52 * 2 ^ 2046"
    by (rule ieee_scaled_normal) simp_all
  moreover have "(2 ^ 11 - 1) * 2 ^ 52 = 2046 * 2 ^ 52 + (2::nat) ^ 52"
    by simp
  ultimately show ?thesis by (simp only:)
qed

lemma ieee_scaled_infinity_single:
  "ieee_scaled 23 ((2 ^ 8 - 1) * 2 ^ 23) = 2 ^ 23 * 2 ^ 254"
proof -
  have "ieee_scaled 23 (254 * 2 ^ 23 + 2 ^ 23) = 2 ^ 23 * 2 ^ 254"
    by (rule ieee_scaled_normal) simp_all
  moreover have "(2 ^ 8 - 1) * 2 ^ 23 = 254 * 2 ^ 23 + (2::nat) ^ 23"
    by simp
  ultimately show ?thesis by (simp only:)
qed

lemma ieee_emin_double: "ieee_emin 52 11 = - 1074"
  by (simp add: ieee_emin_def)

lemma ieee_emin_single: "ieee_emin 23 8 = - 149"
  by (simp add: ieee_emin_def)

lemma ieee_round_double_exact:
  assumes m: "m < 2 ^ 53" and lo: "- 1074 \<le> e" and hi: "e \<le> 971"
  shows "ieee_value 52 11 (ieee_round 52 11 m e) = real m * 2 powi e"
    and "ieee_round 52 11 m e < 2047 * 2 ^ 52"
proof -
  define n where "n = nat (e - ieee_emin 52 11)"
  have n: "n \<le> 2045" using hi by (simp add: n_def ieee_emin_double)
  have e: "ieee_emin 52 11 \<le> e" using lo by (simp only: ieee_emin_double)
  have m': "m < 2 * 2 ^ 52" using m by simp
  have "m * 2 ^ n < 2 ^ 53 * 2 ^ n"
    using m by (intro mult_strict_right_mono) simp_all
  also have "\<dots> = 2 ^ (53 + n)" by (simp only: power_add)
  also have "\<dots> \<le> 2 ^ (52 + 2046)"
    using n by (intro power_increasing) simp_all
  also have "\<dots> = ieee_scaled 52 ((2 ^ 11 - 1) * 2 ^ 52)"
    by (simp only: power_add ieee_scaled_infinity_double)
  finally have small: "m * 2 ^ nat (e - ieee_emin 52 11) < ieee_scaled 52 ((2 ^ 11 - 1) * 2 ^ 52)"
    by (simp only: n_def)
  show "ieee_value 52 11 (ieee_round 52 11 m e) = real m * 2 powi e"
    using e m' small by (rule ieee_round_exact)
  have "ieee_round 52 11 m e < (2 ^ 11 - 1) * 2 ^ 52"
    using e m' small by (rule ieee_round_exact)
  then show "ieee_round 52 11 m e < 2047 * 2 ^ 52" by simp
qed

lemma double_of_nat_pattern:
  assumes "k < 2047 * 2 ^ 52"
  shows "double_magnitude ((if b then push_bit 63 1 else 0) OR word_of_nat k) = k"
    and "double_sign ((if b then push_bit 63 1 else 0) OR word_of_nat k) = b"
proof -
  have k: "k < 2 ^ 63" using assms by simp
  then have t: "take_bit 63 (word_of_nat k :: double) = word_of_nat k"
    by (rule take_bit_word_of_nat)
  have "k < 2 ^ 64" using k by simp
  then have u: "unat (word_of_nat k :: double) = k"
    by (simp add: unat_of_nat)
  show "double_magnitude ((if b then push_bit 63 1 else 0) OR word_of_nat k) = k"
    by (simp only: double_sign_magnitude_or(1) [OF t] u)
  show "double_sign ((if b then push_bit 63 1 else 0) OR word_of_nat k) = b"
    by (rule double_sign_magnitude_or(2) [OF t])
qed

lemma double_of_int_is_int:
  assumes "\<bar>n\<bar> < 2 ^ 53"
  shows "number_is_int (double_of_int n) n"
proof -
  define k where "k = ieee_round 52 11 (nat \<bar>n\<bar>) 0"
  have m: "nat \<bar>n\<bar> < 2 ^ 53" using assms by (simp add: nat_less_iff)
  have v: "ieee_value 52 11 k = real (nat \<bar>n\<bar>) * 2 powi 0"
    unfolding k_def using m by (rule ieee_round_double_exact) simp_all
  have fin: "k < 2047 * 2 ^ 52"
    unfolding k_def using m by (rule ieee_round_double_exact) simp_all
  have d: "double_of_int n = (if n < 0 then push_bit 63 1 else 0) OR word_of_nat k"
    by (simp only: double_of_int_def k_def)
  have mag: "double_magnitude (double_of_int n) = k"
    by (simp only: d double_of_nat_pattern(1) [OF fin])
  have sgn: "double_sign (double_of_int n) = (n < 0)"
    by (simp only: d double_of_nat_pattern(2) [OF fin])
  have "double_value (double_of_int n) = real_of_int n"
    by (simp add: double_value_def mag sgn v)
  with fin show ?thesis
    by (simp only: number_is_int_def double_is_finite_def mag sgn)
qed

lemma double_pattern:
  fixes w :: double
  assumes "unat w < 2 ^ 63"
  shows "double_magnitude ((if b then push_bit 63 1 else 0) OR w) = unat w"
    and "double_sign ((if b then push_bit 63 1 else 0) OR w) = b"
proof -
  have "take_bit 63 (word_of_nat (unat w) :: double) = word_of_nat (unat w)"
    using assms by (rule take_bit_word_of_nat)
  then have t: "take_bit 63 w = w" by simp
  show "double_magnitude ((if b then push_bit 63 1 else 0) OR w) = unat w"
    by (rule double_sign_magnitude_or(1) [OF t])
  show "double_sign ((if b then push_bit 63 1 else 0) OR w) = b"
    by (rule double_sign_magnitude_or(2) [OF t])
qed

lemma float_pattern:
  fixes w :: float
  assumes "unat w < 2 ^ 31"
  shows "float_magnitude ((if b then push_bit 31 1 else 0) OR w) = unat w"
    and "float_sign ((if b then push_bit 31 1 else 0) OR w) = b"
proof -
  have "take_bit 31 (word_of_nat (unat w) :: float) = word_of_nat (unat w)"
    using assms by (rule take_bit_word_of_nat)
  then have t: "take_bit 31 w = w" by simp
  show "float_magnitude ((if b then push_bit 31 1 else 0) OR w) = unat w"
    by (rule float_sign_magnitude_or(1) [OF t])
  show "float_sign ((if b then push_bit 31 1 else 0) OR w) = b"
    by (rule float_sign_magnitude_or(2) [OF t])
qed

lemma unat_or_less:
  fixes a b :: "'a::len word"
  assumes "unat a < 2 ^ n" and "unat b < 2 ^ n"
  shows "unat (a OR b) < 2 ^ n"
proof -
  have a: "take_bit n (unat a) = unat a" using assms(1) by (simp add: take_bit_nat_eq_self)
  have b: "take_bit n (unat b) = unat b" using assms(2) by (simp add: take_bit_nat_eq_self)
  have "unat (a OR b) = unat a OR unat b" by (simp add: unsigned_or_eq)
  also have "\<dots> = take_bit n (unat a OR unat b)"
    by (simp only: take_bit_or a b)
  finally have "unat (a OR b) = take_bit n (unat a OR unat b)" .
  then show ?thesis by (metis take_bit_nat_less_exp)
qed

lemma ieee_fields_single_finite:
  assumes k: "k < 255 * 2 ^ 23" and f: "ieee_fields 23 8 k = (m, e)"
  shows "m < 2 ^ 24" and "- 149 \<le> e" and "e \<le> 104"
proof -
  have q: "k div 2 ^ 23 < 255" using k by (simp add: less_mult_imp_div_less)
  have r: "k mod 2 ^ 23 < 2 ^ 23" by simp
  show "m < 2 ^ 24" using f r by (auto simp: ieee_fields_def split: if_splits)
  show "- 149 \<le> e" using f by (auto simp: ieee_fields_def ieee_emin_single split: if_splits)
  show "e \<le> 104" using f q by (auto simp: ieee_fields_def ieee_emin_single split: if_splits)
qed

lemma unat_double_infinity: "unat (push_bit 52 2047 :: double) = 2047 * 2 ^ 52"
  by simp

lemma unat_float_infinity: "unat (push_bit 23 255 :: float) = 255 * 2 ^ 23"
  by simp

lemma unat_double_quiet: "unat (push_bit 52 2047 OR push_bit 51 1 :: double) = 4095 * 2 ^ 51"
  by simp

lemma unat_float_quiet: "unat (push_bit 22 511 :: float) = 511 * 2 ^ 22"
  by simp

lemma double_of_float_is_float: "number_is_float (double_of_float f) f"
proof -
  let ?s = "if float_sign f then push_bit 63 1 else 0 :: double"
  consider (finite) "float_magnitude f < 255 * 2 ^ 23"
    | (infinite) "float_magnitude f = 255 * 2 ^ 23"
    | (nan) "255 * 2 ^ 23 < float_magnitude f"
    by linarith
  then show ?thesis
  proof cases
    case finite
    obtain m e where fe: "ieee_fields 23 8 (float_magnitude f) = (m, e)"
      by (cases "ieee_fields 23 8 (float_magnitude f)")
    define k where "k = ieee_round 52 11 m e"
    have m: "m < 2 ^ 53"
    proof -
      have "m < 2 ^ 24" using finite fe by (rule ieee_fields_single_finite)
      also have "\<dots> \<le> (2::nat) ^ 53" by (rule power_increasing) simp_all
      finally show ?thesis .
    qed
    have lo: "- 1074 \<le> e" using ieee_fields_single_finite(2) [OF finite fe] by simp
    have hi: "e \<le> 971" using ieee_fields_single_finite(3) [OF finite fe] by simp
    have v: "ieee_value 52 11 k = real m * 2 powi e"
      unfolding k_def using m lo hi by (rule ieee_round_double_exact)
    have fin: "k < 2047 * 2 ^ 52"
      unfolding k_def using m lo hi by (rule ieee_round_double_exact)
    have d: "double_of_float f = ?s OR word_of_nat k"
      using finite by (simp only: double_of_float_def fe k_def if_True prod.case)
    have mag: "double_magnitude (double_of_float f) = k"
      by (simp only: d double_of_nat_pattern(1) [OF fin])
    have sgn: "double_sign (double_of_float f) = float_sign f"
      by (simp only: d double_of_nat_pattern(2) [OF fin])
    have "ieee_value 23 8 (float_magnitude f) = real m * 2 powi e"
      by (simp only: ieee_value_def fe prod.case)
    with finite fin v show ?thesis
      by (simp only: number_is_float_def double_is_finite_def mag sgn if_True simp_thms)
  next
    case infinite
    have d: "double_of_float f = ?s OR push_bit 52 2047"
      using infinite by (simp only: double_of_float_def if_True if_False less_irrefl refl simp_thms)
    have b: "unat (push_bit 52 2047 :: double) < 2 ^ 63"
      by (simp only: unat_double_infinity) simp
    have mag: "double_magnitude (double_of_float f) = 2047 * 2 ^ 52"
      by (simp only: d double_pattern(1) [OF b] unat_double_infinity)
    have sgn: "double_sign (double_of_float f) = float_sign f"
      by (simp only: d double_pattern(2) [OF b])
    from infinite show ?thesis
      by (simp only: number_is_float_def mag sgn less_irrefl if_False if_True simp_thms)
  next
    case nan
    define c :: double where "c = push_bit 29 (word_of_nat (float_magnitude f mod 2 ^ 23))"
    define q :: double where "q = push_bit 52 2047 OR push_bit 51 1"
    have d: "double_of_float f = ?s OR (q OR c)"
      using nan by (simp add: double_of_float_def c_def q_def or.assoc del: push_bit_of_1)
    have cb: "unat c < 2 ^ 63"
    proof -
      have "float_magnitude f mod 2 ^ 23 < 2 ^ 23" by simp
      then have "float_magnitude f mod 2 ^ 23 * 2 ^ 29 < 2 ^ 23 * 2 ^ 29" by simp
      then have l: "float_magnitude f mod 2 ^ 23 * 2 ^ 29 < 2 ^ 63" by simp
      have "c = word_of_nat (float_magnitude f mod 2 ^ 23 * 2 ^ 29)"
        by (simp add: c_def push_bit_eq_mult)
      then have "unat c = (float_magnitude f mod 2 ^ 23 * 2 ^ 29) mod 2 ^ 64"
        by (simp only: unat_of_nat) simp
      also have "\<dots> \<le> float_magnitude f mod 2 ^ 23 * 2 ^ 29" by (rule mod_less_eq_dividend)
      finally show ?thesis using l by (rule le_less_trans)
    qed
    have qb: "unat q < 2 ^ 63" by (simp only: q_def unat_double_quiet) simp
    have b: "unat (q OR c) < 2 ^ 63" using qb cb by (rule unat_or_less)
    have mag: "double_magnitude (double_of_float f) = unat (q OR c)"
      by (simp only: d double_pattern(1) [OF b])
    have "unat q \<le> unat (q OR c)" by (rule unat_or_ge)
    then have "2047 * 2 ^ 52 < unat (q OR c)" by (simp only: q_def unat_double_quiet) simp
    with nan show ?thesis
      by (simp add: number_is_float_def mag)
  qed
qed

lemma float_of_nat_pattern:
  assumes "k \<le> 255 * 2 ^ 23"
  shows "float_magnitude ((if b then push_bit 31 1 else 0) OR word_of_nat k) = k"
    and "float_sign ((if b then push_bit 31 1 else 0) OR word_of_nat k) = b"
proof -
  have k: "k < 2 ^ 31" using assms by simp
  then have "k < 2 ^ 32" by simp
  then have u: "unat (word_of_nat k :: float) = k"
    by (simp add: unat_of_nat)
  have b: "unat (word_of_nat k :: float) < 2 ^ 31" using k by (simp only: u)
  show "float_magnitude ((if b then push_bit 31 1 else 0) OR word_of_nat k) = k"
    by (simp only: float_pattern(1) [OF b] u)
  show "float_sign ((if b then push_bit 31 1 else 0) OR word_of_nat k) = b"
    by (rule float_pattern(2) [OF b])
qed

lemma ieee_round_single_nearest: "is_single_nearest (real m * 2 powi e) (ieee_round 23 8 m e)"
proof -
  have i: "(2 ^ 8 - 1) * 2 ^ 23 = 255 * (2::nat) ^ 23" by simp
  have le: "ieee_round 23 8 m e \<le> 255 * 2 ^ 23"
    using ieee_round_le [of 23 8 m e] by (simp only: i)
  have "\<bar>ieee_value 23 8 (ieee_round 23 8 m e) - real m * 2 powi e\<bar>
          \<le> \<bar>ieee_value 23 8 j - real m * 2 powi e\<bar> \<and>
        (\<bar>ieee_value 23 8 j - real m * 2 powi e\<bar> =
           \<bar>ieee_value 23 8 (ieee_round 23 8 m e) - real m * 2 powi e\<bar> \<and>
         j \<noteq> ieee_round 23 8 m e \<longrightarrow> even (ieee_round 23 8 m e))"
    if "j \<le> 255 * 2 ^ 23" for j
  proof -
    from that have j: "j \<le> (2 ^ 8 - 1) * 2 ^ 23" by (simp only: i)
    show ?thesis
      using ieee_round_nearest(1) [OF j, of m e] ieee_round_nearest(2) [OF j, of m e]
      by blast
  qed
  with le show ?thesis unfolding is_single_nearest_def by blast
qed

lemma static_cast_float_is_float: "is_float_of x (static_cast_float x)"
proof -
  let ?s = "if double_sign x then push_bit 31 1 else 0 :: float"
  consider (finite) "double_is_finite x"
    | (infinite) "\<not> double_is_finite x" "double_magnitude x = 2047 * 2 ^ 52"
    | (nan) "\<not> double_is_finite x" "double_magnitude x \<noteq> 2047 * 2 ^ 52"
    by blast
  then show ?thesis
  proof cases
    case finite
    obtain m e where fe: "ieee_fields 52 11 (double_magnitude x) = (m, e)"
      by (cases "ieee_fields 52 11 (double_magnitude x)")
    define k where "k = ieee_round 23 8 m e"
    have near: "is_single_nearest (real m * 2 powi e) k"
      unfolding k_def by (rule ieee_round_single_nearest)
    then have le: "k \<le> 255 * 2 ^ 23" by (simp only: is_single_nearest_def)
    have d: "static_cast_float x = ?s OR word_of_nat k"
      using finite by (simp only: static_cast_float_def fe k_def if_True prod.case)
    have mag: "float_magnitude (static_cast_float x) = k"
      by (simp only: d float_of_nat_pattern(1) [OF le])
    have sgn: "float_sign (static_cast_float x) = double_sign x"
      by (simp only: d float_of_nat_pattern(2) [OF le])
    have v: "ieee_value 52 11 (double_magnitude x) = real m * 2 powi e"
      by (simp only: ieee_value_def fe prod.case)
    from finite near show ?thesis
      by (simp only: is_float_of_def mag sgn v if_True simp_thms)
  next
    case infinite
    have d: "static_cast_float x = ?s OR push_bit 23 255"
      using infinite by (simp only: static_cast_float_def if_True if_False refl simp_thms)
    have b: "unat (push_bit 23 255 :: float) < 2 ^ 31"
      by (simp only: unat_float_infinity) simp
    have mag: "float_magnitude (static_cast_float x) = 255 * 2 ^ 23"
      by (simp only: d float_pattern(1) [OF b] unat_float_infinity)
    have sgn: "float_sign (static_cast_float x) = double_sign x"
      by (simp only: d float_pattern(2) [OF b])
    from infinite show ?thesis
      by (simp only: is_float_of_def mag sgn if_False if_True simp_thms)
  next
    case nan
    define c :: float where "c = word_of_nat (double_magnitude x mod 2 ^ 52 div 2 ^ 29)"
    define q :: float where "q = push_bit 22 511"
    have d: "static_cast_float x = ?s OR (q OR c)"
      using nan by (simp only: static_cast_float_def c_def q_def if_False)
    have cb: "unat c < 2 ^ 31"
    proof -
      have "double_magnitude x mod 2 ^ 52 < 2 ^ 23 * 2 ^ 29" by simp
      then have "double_magnitude x mod 2 ^ 52 div 2 ^ 29 < 2 ^ 23"
        by (simp only: less_mult_imp_div_less)
      then have l: "double_magnitude x mod 2 ^ 52 div 2 ^ 29 < 2 ^ 31" by simp
      have "unat c = (double_magnitude x mod 2 ^ 52 div 2 ^ 29) mod 2 ^ 32"
        by (simp only: c_def unat_of_nat) simp
      also have "\<dots> \<le> double_magnitude x mod 2 ^ 52 div 2 ^ 29" by (rule mod_less_eq_dividend)
      finally show ?thesis using l by (rule le_less_trans)
    qed
    have qb: "unat q < 2 ^ 31" by (simp only: q_def unat_float_quiet) simp
    have b: "unat (q OR c) < 2 ^ 31" using qb cb by (rule unat_or_less)
    have mag: "float_magnitude (static_cast_float x) = unat (q OR c)"
      by (simp only: d float_pattern(1) [OF b])
    have "unat q \<le> unat (q OR c)" by (rule unat_or_ge)
    then have "255 * 2 ^ 23 < unat (q OR c)" by (simp only: q_def unat_float_quiet) simp
    with nan show ?thesis
      by (simp only: is_float_of_def mag if_False)
  qed
qed

lemma number_is_int_uint:
  fixes w :: "'a::len word"
  assumes "LENGTH('a) \<le> 32"
  shows "number_is_int (double_of_int (uint w)) (uint w)"
proof (rule double_of_int_is_int)
  have "uint w < 2 ^ LENGTH('a)" by (rule uint_lt2p)
  also have "\<dots> \<le> (2::int) ^ 53" using assms by (intro power_increasing) simp_all
  finally show "\<bar>uint w\<bar> < 2 ^ 53" by simp
qed

lemma number_is_int_sint:
  fixes w :: "'a::len word"
  assumes "LENGTH('a) \<le> 32"
  shows "number_is_int (double_of_int (sint w)) (sint w)"
proof (rule double_of_int_is_int)
  have le: "(2::int) ^ (LENGTH('a) - 1) < 2 ^ 53"
    using assms by (intro power_strict_increasing) simp_all
  have "sint w < 2 ^ (LENGTH('a) - 1)" by (rule sint_lt)
  moreover have "- (2 ^ (LENGTH('a) - 1)) \<le> sint w" by (rule sint_ge)
  ultimately show "\<bar>sint w\<bar> < 2 ^ 53" using le by linarith
qed

lemma AllocateResult_is_narrow:
  assumes "DataViewConvertValue T x = Some d"
  shows "is_narrow T x (AllocateResult d)"
proof (cases x)
  case (Number y)
  have s8: "sint (ucast (DoubleToInt32 y) :: 8 word) =
      sign_reinterpret 8 (low_order_bits 8 (truncate_mod_2_32 y))"
    by (simp add: sint_sign_reinterpret uint_ucast_low_order_bits uint_DoubleToInt32)
  have u8: "uint (ucast (DoubleToInt32 y) :: 8 word) = low_order_bits 8 (truncate_mod_2_32 y)"
    by (simp add: uint_ucast_low_order_bits uint_DoubleToInt32)
  have s16: "sint (ucast (DoubleToInt32 y) :: 16 word) =
      sign_reinterpret 16 (low_order_bits 16 (truncate_mod_2_32 y))"
    by (simp add: sint_sign_reinterpret uint_ucast_low_order_bits uint_DoubleToInt32)
  have u16: "uint (ucast (DoubleToInt32 y) :: 16 word) = low_order_bits 16 (truncate_mod_2_32 y)"
    by (simp add: uint_ucast_low_order_bits uint_DoubleToInt32)
  have s32: "sint (DoubleToInt32 y) = sign_reinterpret 32 (truncate_mod_2_32 y)"
    by (simp add: sint_sign_reinterpret uint_DoubleToInt32)
  have i8: "number_is_int (double_of_int (sint (ucast (DoubleToInt32 y) :: 8 word)))
      (sign_reinterpret 8 (low_order_bits 8 (truncate_mod_2_32 y)))"
    using number_is_int_sint [of "ucast (DoubleToInt32 y) :: 8 word"] by (simp add: s8)
  have j8: "number_is_int (double_of_int (uint (ucast (DoubleToInt32 y) :: 8 word)))
      (low_order_bits 8 (truncate_mod_2_32 y))"
    using number_is_int_uint [of "ucast (DoubleToInt32 y) :: 8 word"] by (simp add: u8)
  have i16: "number_is_int (double_of_int (sint (ucast (DoubleToInt32 y) :: 16 word)))
      (sign_reinterpret 16 (low_order_bits 16 (truncate_mod_2_32 y)))"
    using number_is_int_sint [of "ucast (DoubleToInt32 y) :: 16 word"] by (simp add: s16)
  have j16: "number_is_int (double_of_int (uint (ucast (DoubleToInt32 y) :: 16 word)))
      (low_order_bits 16 (truncate_mod_2_32 y))"
    using number_is_int_uint [of "ucast (DoubleToInt32 y) :: 16 word"] by (simp add: u16)
  have i32: "number_is_int (double_of_int (sint (DoubleToInt32 y)))
      (sign_reinterpret 32 (truncate_mod_2_32 y))"
    using number_is_int_sint [of "DoubleToInt32 y"] by (simp add: s32)
  have j32: "number_is_int (double_of_int (uint (DoubleToInt32 y))) (truncate_mod_2_32 y)"
    using number_is_int_uint [of "DoubleToInt32 y"] by (simp add: uint_DoubleToInt32)
  have fl: "\<exists>f. is_float_of y f \<and> number_is_float (double_of_float (static_cast_float y)) f"
    using static_cast_float_is_float [of y] double_of_float_is_float [of "static_cast_float y"]
    by blast
  show ?thesis
    using assms i8 j8 i16 j16 i32 j32 fl
    by (cases T) (auto simp: Number is_narrow_def NewNumber_def DoubleToUint32_def)
next
  case (BigInt i)
  have "sint (AsInt64 i) = sign_reinterpret 64 (low_order_bits 64 i)"
    by (simp add: sint_sign_reinterpret uint_AsInt64)
  then show ?thesis
    using assms
    by (cases T) (auto simp: BigInt is_narrow_def FromInt64_def FromUint64_def uint_AsUint64)
qed (use assms in \<open>cases T; simp\<close>)+

subsection \<open>Two conversions evaluated\<close>

text \<open>The Number \<open>-56\<close> and the float nearest to \<open>200\<close>, as bit patterns.\<close>

lemma bit_length_eq:
  assumes "2 ^ n \<le> k" and "k < 2 ^ Suc n"
  shows "bit_length k = Suc n"
proof -
  have "bit_length k \<le> Suc n" using assms(2) by (rule bit_length_le)
  moreover have "(2::nat) ^ n < 2 ^ bit_length k"
    using assms(1) bit_length_upper [of k] by (rule le_less_trans)
  then have "n < bit_length k" by (simp only: power_strict_increasing_iff one_less_numeral_iff semiring_norm)
  ultimately show ?thesis by simp
qed

lemma double_of_int_minus_56: "double_of_int (- 56) = 0xC04C000000000000"
proof -
  have "bit_length (56 * 2 ^ 1074) = Suc 1079"
    by (rule bit_length_eq) simp_all
  then have bl: "bit_length (56 * 2 ^ 1074) = 1080" by simp
  have r: "ieee_round 52 11 56 0 = 0x404C000000000000"
    by (simp add: ieee_round_def Let_def ieee_emin_def bl [simplified])
  show ?thesis
    by (simp add: double_of_int_def r)
qed

lemma static_cast_float_200: "static_cast_float 0x4069000000000000 = 0x43480000"
proof -
  have m: "double_magnitude 0x4069000000000000 = 0x4069000000000000"
    by (simp add: double_magnitude_def take_bit_eq_mod)
  have f: "ieee_fields 52 11 0x4069000000000000 = (0x19000000000000, - 45)"
    by (simp add: ieee_fields_def ieee_emin_def)
  have "bit_length (0x19000000000000 * 2 ^ 104) = Suc 156"
    by (rule bit_length_eq) simp_all
  then have bl: "bit_length (0x19000000000000 * 2 ^ 104) = 157" by simp
  have r: "ieee_round 23 8 0x19000000000000 (- 45) = 0x43480000"
    by (simp add: ieee_round_def Let_def ieee_emin_def bl [simplified])
  show ?thesis
    by (simp add: static_cast_float_def double_is_finite_def double_sign_def bit_iff_odd m f r)
qed

section \<open>The claims\<close>

text \<open>
  C1. For a view inside an attached buffer and every kind \<open>T\<close>, a read or a write
  whose index converts to \<open>i\<close> raises a RangeError if and only if \<open>i + sizeof T\<close>
  exceeds the byte length the view records or the sum does not fit \<open>size_t\<close>, and it
  completes if and only if \<open>i + sizeof T\<close> is within that length. So the access at
  \<open>L - sizeof T\<close> completes, the one at \<open>L - sizeof T + 1\<close> raises, and a sum that
  wraps around never passes the check.
\<close>

theorem access_out_of_bounds_iff:
  assumes idx: "ToIndex rt request_index kInvalidDataViewAccessorOffset isolate = (Inr i, isolate1)"
    and att1: "\<not> was_neutered (buffers isolate1 (JSDataView.buffer v))"
    and inv1: "view_within v (buffers isolate1 (JSDataView.buffer v))"
    and conv: "DataViewConvertInput rt T value isolate1 = (Inr x, isolate2)"
    and att2: "\<not> was_neutered (buffers isolate2 (JSDataView.buffer v))"
    and inv2: "view_within v (buffers isolate2 (JSDataView.buffer v))"
  shows "((\<exists>t a. fst (GetViewValue rt T v request_index le method isolate) = Inl (RangeError t a)) \<longleftrightarrow>
            (JSDataView.byte_length v < i + sizeof T \<or> 2 ^ 64 \<le> i + sizeof T)) \<and>
         ((\<exists>r. fst (GetViewValue rt T v request_index le method isolate) = Inr r) \<longleftrightarrow>
            i + sizeof T \<le> JSDataView.byte_length v) \<and>
         ((\<exists>t a. fst (SetViewValue rt T v request_index le value method isolate) = Inl (RangeError t a)) \<longleftrightarrow>
            (JSDataView.byte_length v < i + sizeof T \<or> 2 ^ 64 \<le> i + sizeof T)) \<and>
         ((\<exists>r. fst (SetViewValue rt T v request_index le value method isolate) = Inr r) \<longleftrightarrow>
            i + sizeof T \<le> JSDataView.byte_length v)"
proof -
  have len: "JSDataView.byte_length v < 2 ^ 64"
    using inv1 by (simp add: view_within_def)
  then have ov: "2 ^ 64 \<le> i + sizeof T \<Longrightarrow> JSDataView.byte_length v < i + sizeof T"
    by simp
  show ?thesis
    using ov
    by (auto simp: GetViewValue_attached [OF idx att1 inv1]
        SetViewValue_attached [OF idx conv att2 inv2])
qed

theorem access_out_of_bounds_iff_witness:
  "ToIndex (example_runtime True) (JSReceiver 4) kInvalidDataViewAccessorOffset example_isolate
     = (Inr 4, record_effect 4 example_isolate) \<and>
   ToIndex (example_runtime True) (JSReceiver 5) kInvalidDataViewAccessorOffset example_isolate
     = (Inr 5, record_effect 5 example_isolate) \<and>
   \<not> was_neutered (buffers (record_effect 4 example_isolate) (JSDataView.buffer example_view)) \<and>
   view_within example_view (buffers (record_effect 4 example_isolate) (JSDataView.buffer example_view)) \<and>
   DataViewConvertInput (example_runtime True) Int32 (Number 0) (record_effect 4 example_isolate)
     = (Inr (Number 0), record_effect 4 example_isolate) \<and>
   (\<exists>r. fst (GetViewValue (example_runtime True) Int32 example_view (JSReceiver 4) False ''get''
       example_isolate) = Inr r) \<and>
   (\<exists>t a. fst (GetViewValue (example_runtime True) Int32 example_view (JSReceiver 5) False ''get''
       example_isolate) = Inl (RangeError t a)) \<and>
   (\<exists>r. fst (SetViewValue (example_runtime True) Int32 example_view (JSReceiver 4) False (Number 0)
       ''get'' example_isolate) = Inr r) \<and>
   (\<exists>t a. fst (SetViewValue (example_runtime True) Int32 example_view (JSReceiver 5) False (Number 0)
       ''get'' example_isolate) = Inl (RangeError t a))"
proof -
  let ?rt = "example_runtime True"
  have i4: "ToIndex ?rt (JSReceiver 4) kInvalidDataViewAccessorOffset example_isolate
     = (Inr 4, record_effect 4 example_isolate)"
    by (simp add: example_runtime_def)
  have i5: "ToIndex ?rt (JSReceiver 5) kInvalidDataViewAccessorOffset example_isolate
     = (Inr 5, record_effect 5 example_isolate)"
    by (simp add: example_runtime_def)
  have att: "\<not> was_neutered (buffers (record_effect n example_isolate) (JSDataView.buffer example_view))" for n
    by (simp add: record_effect_def example_isolate_def)
  have inv: "view_within example_view (buffers (record_effect n example_isolate) (JSDataView.buffer example_view))" for n
    by (simp add: view_within_def record_effect_def example_isolate_def example_view_def)
  have conv: "DataViewConvertInput ?rt Int32 (Number 0) (record_effect n example_isolate)
     = (Inr (Number 0), record_effect n example_isolate)" for n
    by (simp add: example_runtime_def)
  have len: "JSDataView.byte_length example_view = 8"
    by (simp add: example_view_def)
  show ?thesis
    using access_out_of_bounds_iff [OF i4 att inv conv att inv, of False "''get''"]
      access_out_of_bounds_iff [OF i5 att inv conv att inv, of False "''get''"]
      i4 i5 att [of 4] inv [of 4] conv [of 4]
    by (simp add: len)
qed

text \<open>
  C2. When the buffer of a view is detached, every read and every write whose
  conversions complete raises the TypeError for a detached buffer. The flag is read
  from the isolate as the conversions of this very call leave it. After a buffer is
  detached the \<open>byteOffset\<close> and \<open>byteLength\<close> of its views are readable and are
  what they were before.
\<close>

theorem detached_access_raises_TypeError:
  assumes idx: "ToIndex rt request_index kInvalidDataViewAccessorOffset isolate = (Inr i, isolate1)"
    and range: "i < 2 ^ 64"
    and det1: "was_neutered (buffers isolate1 (JSDataView.buffer v))"
    and conv: "DataViewConvertInput rt T value isolate1 = (Inr x, isolate2)"
    and det2: "was_neutered (buffers isolate2 (JSDataView.buffer v))"
  shows "GetViewValue rt T v request_index le method isolate =
           (Inl (TypeError kDetachedOperation [String method]), isolate1) \<and>
         SetViewValue rt T v request_index le value method isolate =
           (Inl (TypeError kDetachedOperation [String method]), isolate2) \<and>
         was_neutered (buffers (Neuter (JSDataView.buffer v) isolate) (JSDataView.buffer v)) \<and>
         DataViewPrototypeGetByteOffset [DataViewObject v] (Neuter (JSDataView.buffer v) isolate) =
           (Inr (Number (double_of_int (int (byte_offset v)))), Neuter (JSDataView.buffer v) isolate) \<and>
         DataViewPrototypeGetByteLength [DataViewObject v] (Neuter (JSDataView.buffer v) isolate) =
           (Inr (Number (double_of_int (int (JSDataView.byte_length v)))),
            Neuter (JSDataView.buffer v) isolate) \<and>
         fst (DataViewPrototypeGetByteOffset [DataViewObject v] (Neuter (JSDataView.buffer v) isolate)) =
           fst (DataViewPrototypeGetByteOffset [DataViewObject v] isolate) \<and>
         fst (DataViewPrototypeGetByteLength [DataViewObject v] (Neuter (JSDataView.buffer v) isolate)) =
           fst (DataViewPrototypeGetByteLength [DataViewObject v] isolate)"
proof -
  have get: "GetViewValue rt T v request_index le method isolate =
           (Inl (TypeError kDetachedOperation [String method]), isolate1)"
    using idx range det1 by (simp add: GetViewValue_def TryNumberToSize_def)
  have set: "SetViewValue rt T v request_index le value method isolate =
           (Inl (TypeError kDetachedOperation [String method]), isolate2)"
    using idx range conv det2 by (simp add: SetViewValue_def TryNumberToSize_def)
  have flag: "was_neutered (buffers (Neuter (JSDataView.buffer v) isolate) (JSDataView.buffer v))"
    by (simp add: Neuter_def)
  have props: "DataViewPrototypeGetByteOffset [DataViewObject v] s =
           (Inr (Number (double_of_int (int (byte_offset v)))), s)"
      "DataViewPrototypeGetByteLength [DataViewObject v] s =
           (Inr (Number (double_of_int (int (JSDataView.byte_length v)))), s)" for s
    by (simp_all add: DataViewPrototypeGetByteOffset_def DataViewPrototypeGetByteLength_def
        CHECK_RECEIVER_JSDataView_def atOrUndefined_def)
  show ?thesis
    using get set flag by (simp add: props)
qed

text \<open>
  The witness: a read of an attached buffer completes; after the buffer is detached the
  same read and a write raise the TypeError.
\<close>

theorem detached_access_raises_TypeError_witness:
  "ToIndex (example_runtime True) Undefined kInvalidDataViewAccessorOffset
     (Neuter 0 example_isolate) = (Inr 0, Neuter 0 example_isolate) \<and>
   (0::nat) < 2 ^ 64 \<and>
   was_neutered (buffers (Neuter 0 example_isolate) (JSDataView.buffer example_view)) \<and>
   DataViewConvertInput (example_runtime True) Uint8 (Number 0) (Neuter 0 example_isolate)
     = (Inr (Number 0), Neuter 0 example_isolate) \<and>
   (\<exists>r. GetViewValue (example_runtime True) Uint8 example_view Undefined False ''get''
      example_isolate = (Inr r, example_isolate)) \<and>
   GetViewValue (example_runtime True) Uint8 example_view Undefined False ''get''
     (Neuter 0 example_isolate) =
     (Inl (TypeError kDetachedOperation [String ''get'']), Neuter 0 example_isolate) \<and>
   SetViewValue (example_runtime True) Uint8 example_view Undefined False (Number 0) ''get''
     (Neuter 0 example_isolate) =
     (Inl (TypeError kDetachedOperation [String ''get'']), Neuter 0 example_isolate)"
proof -
  let ?rt = "example_runtime True"
  let ?s = "Neuter 0 example_isolate"
  have idx: "ToIndex ?rt Undefined kInvalidDataViewAccessorOffset s = (Inr 0, s)" for s
    by (simp add: example_runtime_def)
  have range: "(0::nat) < 2 ^ 64" by simp
  have det: "was_neutered (buffers ?s (JSDataView.buffer example_view))"
    by (simp add: Neuter_def example_view_def)
  have conv: "DataViewConvertInput ?rt Uint8 (Number 0) ?s = (Inr (Number 0), ?s)"
    by (simp add: example_runtime_def)
  have att: "\<not> was_neutered (buffers example_isolate (JSDataView.buffer example_view))"
    by (simp add: example_isolate_def)
  have inv: "view_within example_view (buffers example_isolate (JSDataView.buffer example_view))"
    by (simp add: view_within_def example_isolate_def example_view_def)
  have before: "\<exists>r. GetViewValue ?rt Uint8 example_view Undefined False ''get''
      example_isolate = (Inr r, example_isolate)"
  proof -
    have len: "JSDataView.byte_length example_view = 8"
      by (simp add: example_view_def)
    show ?thesis
      using GetViewValue_attached [OF idx att inv, of Uint8 False "''get''"]
      by (simp add: len)
  qed
  show ?thesis
    using detached_access_raises_TypeError [OF idx range det conv det, of False "''get''"]
      idx [of ?s] det conv before
    by simp
qed

text \<open>
  C7. In a write the value is converted after the index, by the big-integer protocol
  for the 64-bit kinds and by the numeric protocol for the others, and before the
  buffer is checked for detachment and the index for bounds. An error of the value
  conversion is raised whatever the buffer and the index are; when the index is not a
  \<open>size_t\<close>, the buffer is detached or the bounds are exceeded, the write raises that
  error and leaves the isolate as the value conversion left it, no byte written.
\<close>

theorem value_converted_before_checks:
  assumes idx: "ToIndex rt request_index kInvalidDataViewAccessorOffset isolate = (Inr i, isolate1)"
    and conv: "DataViewConvertInput rt T value isolate1 = (r, isolate2)"
    and fails: "(\<exists>e. r = Inl e) \<or> 2 ^ 64 \<le> i \<or>
                was_neutered (buffers isolate2 (JSDataView.buffer v)) \<or>
                (view_within v (buffers isolate2 (JSDataView.buffer v)) \<and>
                 JSDataView.byte_length v < i + sizeof T)"
  shows "DataViewConvertInput rt T value isolate1 =
           (if T = BigInt64 \<or> T = BigUint64
            then map_prod (map_sum id BigInt) id (BigInt_FromObject rt value isolate1)
            else map_prod (map_sum id Number) id (ToNumber rt value isolate1)) \<and>
         SetViewValue rt T v request_index le value method isolate =
           (Inl (case r of
                   Inl e \<Rightarrow> e
                 | Inr x \<Rightarrow>
                     if 2 ^ 64 \<le> i then RangeError kInvalidDataViewAccessorOffset []
                     else if was_neutered (buffers isolate2 (JSDataView.buffer v))
                     then TypeError kDetachedOperation [String method]
                     else RangeError kInvalidDataViewAccessorOffset []),
            isolate2)"
proof -
  have first: "DataViewConvertInput rt T value isolate1 =
           (if T = BigInt64 \<or> T = BigUint64
            then map_prod (map_sum id BigInt) id (BigInt_FromObject rt value isolate1)
            else map_prod (map_sum id Number) id (ToNumber rt value isolate1))"
    by (cases T) (auto split: prod.splits sum.splits)
  have second: "SetViewValue rt T v request_index le value method isolate =
           (Inl (case r of
                   Inl e \<Rightarrow> e
                 | Inr x \<Rightarrow>
                     if 2 ^ 64 \<le> i then RangeError kInvalidDataViewAccessorOffset []
                     else if was_neutered (buffers isolate2 (JSDataView.buffer v))
                     then TypeError kDetachedOperation [String method]
                     else RangeError kInvalidDataViewAccessorOffset []),
            isolate2)"
  proof (cases r)
    case (Inl e)
    then show ?thesis using idx conv by (simp add: SetViewValue_def)
  next
    case (Inr x)
    show ?thesis
    proof (cases "2 ^ 64 \<le> i \<or> was_neutered (buffers isolate2 (JSDataView.buffer v))")
      case True
      then show ?thesis
        using idx conv Inr by (auto simp: SetViewValue_def TryNumberToSize_def)
    next
      case False
      then have "view_within v (buffers isolate2 (JSDataView.buffer v))"
        and "JSDataView.byte_length v < i + sizeof T"
        and att: "\<not> was_neutered (buffers isolate2 (JSDataView.buffer v))"
        using fails Inr by auto
      then show ?thesis
        using SetViewValue_attached [OF idx conv [unfolded Inr] att] False Inr by simp
    qed
  qed
  show ?thesis using first second by blast
qed

text \<open>
  The witness: the index and the value are script objects and the buffer is detached.
  The write raises the TypeError, and both coercions are on record, the index first.
\<close>

theorem value_converted_before_checks_witness:
  "ToIndex (example_runtime True) (JSReceiver 1) kInvalidDataViewAccessorOffset
     (Neuter 0 example_isolate) = (Inr 1, record_effect 1 (Neuter 0 example_isolate)) \<and>
   DataViewConvertInput (example_runtime True) Int16 (JSReceiver 7)
     (record_effect 1 (Neuter 0 example_isolate)) =
     (Inr (Number (double_of_int 7)), record_effect 7 (record_effect 1 (Neuter 0 example_isolate))) \<and>
   was_neutered (buffers (record_effect 7 (record_effect 1 (Neuter 0 example_isolate)))
     (JSDataView.buffer example_view)) \<and>
   SetViewValue (example_runtime True) Int16 example_view (JSReceiver 1) False (JSReceiver 7) ''set''
     (Neuter 0 example_isolate) =
     (Inl (TypeError kDetachedOperation [String ''set'']),
      record_effect 7 (record_effect 1 (Neuter 0 example_isolate))) \<and>
   script_effects (snd (SetViewValue (example_runtime True) Int16 example_view (JSReceiver 1) False
     (JSReceiver 7) ''set'' (Neuter 0 example_isolate))) = [1, 7]"
proof -
  let ?rt = "example_runtime True"
  let ?s = "Neuter 0 example_isolate"
  have idx: "ToIndex ?rt (JSReceiver 1) kInvalidDataViewAccessorOffset ?s = (Inr 1, record_effect 1 ?s)"
    by (simp add: example_runtime_def)
  have conv: "DataViewConvertInput ?rt Int16 (JSReceiver 7) (record_effect 1 ?s) =
     (Inr (Number (double_of_int 7)), record_effect 7 (record_effect 1 ?s))"
    by (simp add: example_runtime_def)
  have det: "was_neutered (buffers (record_effect 7 (record_effect 1 ?s)) (JSDataView.buffer example_view))"
    by (simp add: Neuter_def example_view_def record_effect_def)
  have fails: "(\<exists>e. (Inr (Number (double_of_int 7)) :: error + object) = Inl e) \<or> 2 ^ 64 \<le> (1::nat) \<or>
                was_neutered (buffers (record_effect 7 (record_effect 1 ?s)) (JSDataView.buffer example_view)) \<or>
                (view_within example_view (buffers (record_effect 7 (record_effect 1 ?s)) (JSDataView.buffer example_view)) \<and>
                 JSDataView.byte_length example_view < 1 + sizeof Int16)"
    using det by simp
  have eff: "script_effects (record_effect 7 (record_effect 1 ?s)) = [1, 7]"
    by (simp add: record_effect_def Neuter_def example_isolate_def)
  show ?thesis
    using value_converted_before_checks [OF idx conv fails, of False "''set''"] idx conv det eff
    by simp
qed

text \<open>
  C10. For every kind \<open>T\<close> the setter builtin passes the name
  \<open>DataView.prototype.get<T>\<close> to \<open>SetViewValue\<close>, so the TypeError of a write to a
  detached buffer reports the name of the getter, not that of the setter.
\<close>

theorem setter_reports_getter_name:
  assumes recv: "atOrUndefined args 0 = DataViewObject v"
    and idx: "ToIndex rt (atOrUndefined args 1) kInvalidDataViewAccessorOffset isolate = (Inr i, isolate1)"
    and range: "i < 2 ^ 64"
    and conv: "DataViewConvertInput rt T (atOrUndefined args 2) isolate1 = (Inr x, isolate2)"
    and det: "was_neutered (buffers isolate2 (JSDataView.buffer v))"
  shows "DataViewPrototypeSet rt T args isolate =
           SetViewValue rt T v (atOrUndefined args 1) (BooleanValue (atOrUndefined args 3))
             (atOrUndefined args 2) (''DataView.prototype.get'' @ type_name T) isolate \<and>
         DataViewPrototypeSet rt T args isolate =
           (Inl (TypeError kDetachedOperation [String (''DataView.prototype.get'' @ type_name T)]),
            isolate2) \<and>
         ''DataView.prototype.get'' @ type_name T \<noteq> ''DataView.prototype.set'' @ type_name T"
  using assms
  by (simp add: DataViewPrototypeSet_def CHECK_RECEIVER_JSDataView_def SetViewValue_def
      TryNumberToSize_def)

theorem setter_reports_getter_name_witness:
  "atOrUndefined [DataViewObject example_view, Undefined, Number 0] 0 = DataViewObject example_view \<and>
   ToIndex (example_runtime True) (atOrUndefined [DataViewObject example_view, Undefined, Number 0] 1)
     kInvalidDataViewAccessorOffset (Neuter 0 example_isolate) = (Inr 0, Neuter 0 example_isolate) \<and>
   (0::nat) < 2 ^ 64 \<and>
   DataViewConvertInput (example_runtime True) Float64
     (atOrUndefined [DataViewObject example_view, Undefined, Number 0] 2) (Neuter 0 example_isolate) =
     (Inr (Number 0), Neuter 0 example_isolate) \<and>
   was_neutered (buffers (Neuter 0 example_isolate) (JSDataView.buffer example_view)) \<and>
   DataViewPrototypeSet (example_runtime True) Float64
     [DataViewObject example_view, Undefined, Number 0] (Neuter 0 example_isolate) =
     (Inl (TypeError kDetachedOperation [String ''DataView.prototype.getFloat64'']),
      Neuter 0 example_isolate)"
proof -
  let ?rt = "example_runtime True"
  let ?s = "Neuter 0 example_isolate"
  let ?args = "[DataViewObject example_view, Undefined, Number 0]"
  have recv: "atOrUndefined ?args 0 = DataViewObject example_view"
    by (simp add: atOrUndefined_def)
  have idx: "ToIndex ?rt (atOrUndefined ?args 1) kInvalidDataViewAccessorOffset ?s = (Inr 0, ?s)"
    by (simp add: example_runtime_def atOrUndefined_def)
  have range: "(0::nat) < 2 ^ 64" by simp
  have conv: "DataViewConvertInput ?rt Float64 (atOrUndefined ?args 2) ?s = (Inr (Number 0), ?s)"
    by (simp add: example_runtime_def atOrUndefined_def)
  have det: "was_neutered (buffers ?s (JSDataView.buffer example_view))"
    by (simp add: Neuter_def example_view_def)
  show ?thesis
    using setter_reports_getter_name [OF recv idx range conv det, THEN conjunct2, THEN conjunct1]
      recv idx conv det
    by simp
qed

text \<open>
  C4. For a buffer whose byte length is \<open>L\<close> when the offset has been converted to
  \<open>o\<close>, and a length that is supplied and converts to \<open>n\<close>: the construction
  completes if and only if \<open>o \<le> L\<close> and \<open>o + n \<le> L\<close>. It raises the RangeError for
  an invalid offset if \<open>o > L\<close>, and else the RangeError for an invalid length if
  \<open>o + n > L\<close>. The view it returns records \<open>o\<close> and \<open>n\<close>, and the isolate is the
  one the conversions and the allocation left: the constructor writes to no buffer.
\<close>

theorem constructor_with_length:
  assumes nt: "new_target \<noteq> Undefined"
    and buf: "atOrUndefined args 1 = ArrayBufferObject a"
    and explicit: "atOrUndefined args 3 \<noteq> Undefined"
    and idx: "ToIndex rt (atOrUndefined args 2) kInvalidOffset isolate = (Inr offset, isolate1)"
    and len: "ToIndex rt (atOrUndefined args 3) kInvalidDataViewLength isolate1 = (Inr n, isolate2)"
    and new: "JSObject_New rt target new_target isolate2 = (Inr u, isolate3)"
  shows "DataViewConstructor rt target new_target args isolate =
           (if JSArrayBuffer.byte_length (buffers isolate1 a) < offset
            then (Inl (RangeError kInvalidOffset [Number (double_of_int (int offset))]), isolate1)
            else if JSArrayBuffer.byte_length (buffers isolate1 a) < offset + n
            then (Inl (RangeError kInvalidDataViewLength []), isolate2)
            else (Inr (DataViewObject \<lparr>buffer = a, byte_offset = offset, byte_length = n\<rparr>),
                  isolate3)) \<and>
         ((\<exists>view. fst (DataViewConstructor rt target new_target args isolate) = Inr view) \<longleftrightarrow>
            offset \<le> JSArrayBuffer.byte_length (buffers isolate1 a) \<and>
            offset + n \<le> JSArrayBuffer.byte_length (buffers isolate1 a))"
proof -
  have eq: "DataViewConstructor rt target new_target args isolate =
           (if JSArrayBuffer.byte_length (buffers isolate1 a) < offset
            then (Inl (RangeError kInvalidOffset [Number (double_of_int (int offset))]), isolate1)
            else if JSArrayBuffer.byte_length (buffers isolate1 a) < offset + n
            then (Inl (RangeError kInvalidDataViewLength []), isolate2)
            else (Inr (DataViewObject \<lparr>buffer = a, byte_offset = offset, byte_length = n\<rparr>),
                  isolate3))"
    using nt buf explicit idx len new
    by (simp add: DataViewConstructor_def Let_def)
  show ?thesis
    unfolding eq by auto
qed

theorem constructor_with_length_witness:
  "JSReceiver 0 \<noteq> Undefined \<and>
   atOrUndefined [Undefined, ArrayBufferObject 0, JSReceiver 3, JSReceiver 5] 1 = ArrayBufferObject 0 \<and>
   atOrUndefined [Undefined, ArrayBufferObject 0, JSReceiver 3, JSReceiver 5] 3 \<noteq> Undefined \<and>
   ToIndex (example_runtime True)
     (atOrUndefined [Undefined, ArrayBufferObject 0, JSReceiver 3, JSReceiver 5] 2) kInvalidOffset
     example_isolate = (Inr 3, record_effect 3 example_isolate) \<and>
   ToIndex (example_runtime True)
     (atOrUndefined [Undefined, ArrayBufferObject 0, JSReceiver 3, JSReceiver 5] 3)
     kInvalidDataViewLength (record_effect 3 example_isolate) =
     (Inr 5, record_effect 5 (record_effect 3 example_isolate)) \<and>
   JSObject_New (example_runtime True) (JSReceiver 0) (JSReceiver 0)
     (record_effect 5 (record_effect 3 example_isolate)) =
     (Inr (), record_effect 5 (record_effect 3 example_isolate)) \<and>
   DataViewConstructor (example_runtime True) (JSReceiver 0) (JSReceiver 0)
     [Undefined, ArrayBufferObject 0, JSReceiver 3, JSReceiver 5] example_isolate =
     (Inr (DataViewObject \<lparr>buffer = 0, byte_offset = 3, byte_length = 5\<rparr>),
      record_effect 5 (record_effect 3 example_isolate))"
proof -
  let ?rt = "example_runtime True"
  let ?args = "[Undefined, ArrayBufferObject 0, JSReceiver 3, JSReceiver 5]"
  have nt: "JSReceiver 0 \<noteq> Undefined" by simp
  have buf: "atOrUndefined ?args 1 = ArrayBufferObject 0"
    by (simp add: atOrUndefined_def)
  have explicit: "atOrUndefined ?args 3 \<noteq> Undefined"
    by (simp add: atOrUndefined_def)
  have idx: "ToIndex ?rt (atOrUndefined ?args 2) kInvalidOffset example_isolate =
      (Inr 3, record_effect 3 example_isolate)"
    by (simp add: atOrUndefined_def example_runtime_def)
  have len: "ToIndex ?rt (atOrUndefined ?args 3) kInvalidDataViewLength
      (record_effect 3 example_isolate) = (Inr 5, record_effect 5 (record_effect 3 example_isolate))"
    by (simp add: atOrUndefined_def example_runtime_def)
  have new: "JSObject_New ?rt (JSReceiver 0) (JSReceiver 0)
      (record_effect 5 (record_effect 3 example_isolate)) =
      (Inr (), record_effect 5 (record_effect 3 example_isolate))"
    by (simp add: example_runtime_def)
  have L: "JSArrayBuffer.byte_length (buffers (record_effect 3 example_isolate) 0) = 8"
    by (simp add: record_effect_def example_isolate_def)
  show ?thesis
    using constructor_with_length [OF nt buf explicit idx len new, THEN conjunct1]
      nt buf explicit idx len new
    by (simp add: L)
qed



text \<open>
  C6. For every kind and every read or write, the \<open>sizeof T\<close> bytes are reversed if
  and only if the requested order differs from the order of the target, and copied
  straight otherwise; the decision is \<open>NeedToFlipBytes\<close> applied to the flag of the
  build configuration. Hence the bytes in the buffer are in the requested order on
  either target.
\<close>

theorem flip_iff_order_differs:
  assumes idx: "ToIndex rt request_index kInvalidDataViewAccessorOffset isolate = (Inr i, isolate1)"
    and att1: "\<not> was_neutered (buffers isolate1 (JSDataView.buffer v))"
    and inv1: "view_within v (buffers isolate1 (JSDataView.buffer v))"
    and conv: "DataViewConvertInput rt T value isolate1 = (Inr x, isolate2)"
    and att2: "\<not> was_neutered (buffers isolate2 (JSDataView.buffer v))"
    and inv2: "view_within v (buffers isolate2 (JSDataView.buffer v))"
    and inb: "i + sizeof T \<le> JSDataView.byte_length v"
  shows "NeedToFlipBytes (V8_TARGET_LITTLE_ENDIAN rt) le = (le \<noteq> V8_TARGET_LITTLE_ENDIAN rt) \<and>
         (if le \<noteq> V8_TARGET_LITTLE_ENDIAN rt
          then rev (union_bytes (V8_TARGET_LITTLE_ENDIAN rt) d)
          else union_bytes (V8_TARGET_LITTLE_ENDIAN rt) d) = union_bytes le d \<and>
         (if NeedToFlipBytes (V8_TARGET_LITTLE_ENDIAN rt) le
          then FlipBytes n tmem t smem s else CopyBytes n tmem t smem s) =
           (if n = 0 \<or> (t + n \<le> length tmem \<and> s + n \<le> length smem)
            then Some (take t tmem @
                       (if le \<noteq> V8_TARGET_LITTLE_ENDIAN rt
                        then rev (take n (drop s smem)) else take n (drop s smem)) @
                       drop (t + n) tmem)
            else None) \<and>
         GetViewValue rt T v request_index le method isolate =
           (Inr (AllocateResult (union_data (V8_TARGET_LITTLE_ENDIAN rt) T
              (if le \<noteq> V8_TARGET_LITTLE_ENDIAN rt
               then rev (take (sizeof T) (drop (byte_offset v + i)
                      (backing_store (buffers isolate1 (JSDataView.buffer v)))))
               else take (sizeof T) (drop (byte_offset v + i)
                      (backing_store (buffers isolate1 (JSDataView.buffer v))))))),
            isolate1) \<and>
         SetViewValue rt T v request_index le value method isolate =
           (Inr Undefined,
            isolate2\<lparr>buffers := (buffers isolate2)
              (JSDataView.buffer v := (buffers isolate2 (JSDataView.buffer v))
                 \<lparr>backing_store :=
                    take (byte_offset v + i) (backing_store (buffers isolate2 (JSDataView.buffer v))) @
                    (if le \<noteq> V8_TARGET_LITTLE_ENDIAN rt
                     then rev (union_bytes (V8_TARGET_LITTLE_ENDIAN rt) (the (DataViewConvertValue T x)))
                     else union_bytes (V8_TARGET_LITTLE_ENDIAN rt) (the (DataViewConvertValue T x))) @
                    drop (byte_offset v + i + sizeof T)
                      (backing_store (buffers isolate2 (JSDataView.buffer v)))\<rparr>)\<rparr>)"
proof -
  have flip: "NeedToFlipBytes (V8_TARGET_LITTLE_ENDIAN rt) le = (le \<noteq> V8_TARGET_LITTLE_ENDIAN rt)"
    by (auto simp: NeedToFlipBytes_def)
  have order: "(if le \<noteq> V8_TARGET_LITTLE_ENDIAN rt
          then rev (union_bytes (V8_TARGET_LITTLE_ENDIAN rt) d)
          else union_bytes (V8_TARGET_LITTLE_ENDIAN rt) d) = union_bytes le d"
    by (cases d) (auto simp: rev_word_bytes)
  have copy: "(if NeedToFlipBytes (V8_TARGET_LITTLE_ENDIAN rt) le
          then FlipBytes n tmem t smem s else CopyBytes n tmem t smem s) =
           (if n = 0 \<or> (t + n \<le> length tmem \<and> s + n \<le> length smem)
            then Some (take t tmem @
                       (if le \<noteq> V8_TARGET_LITTLE_ENDIAN rt
                        then rev (take n (drop s smem)) else take n (drop s smem)) @
                       drop (t + n) tmem)
            else None)"
    by (simp add: flip CopyBytes_eq FlipBytes_eq)
  have get: "GetViewValue rt T v request_index le method isolate =
           (Inr (AllocateResult (union_data (V8_TARGET_LITTLE_ENDIAN rt) T
              (if le \<noteq> V8_TARGET_LITTLE_ENDIAN rt
               then rev (take (sizeof T) (drop (byte_offset v + i)
                      (backing_store (buffers isolate1 (JSDataView.buffer v)))))
               else take (sizeof T) (drop (byte_offset v + i)
                      (backing_store (buffers isolate1 (JSDataView.buffer v))))))),
            isolate1)"
    using inb by (simp add: GetViewValue_attached [OF idx att1 inv1] Let_def)
  have set: "SetViewValue rt T v request_index le value method isolate =
           (Inr Undefined,
            isolate2\<lparr>buffers := (buffers isolate2)
              (JSDataView.buffer v := (buffers isolate2 (JSDataView.buffer v))
                 \<lparr>backing_store :=
                    take (byte_offset v + i) (backing_store (buffers isolate2 (JSDataView.buffer v))) @
                    (if le \<noteq> V8_TARGET_LITTLE_ENDIAN rt
                     then rev (union_bytes (V8_TARGET_LITTLE_ENDIAN rt) (the (DataViewConvertValue T x)))
                     else union_bytes (V8_TARGET_LITTLE_ENDIAN rt) (the (DataViewConvertValue T x))) @
                    drop (byte_offset v + i + sizeof T)
                      (backing_store (buffers isolate2 (JSDataView.buffer v)))\<rparr>)\<rparr>)"
    using inb by (simp add: SetViewValue_attached [OF idx conv att2 inv2] Let_def)
  show ?thesis
    using flip order copy get set by blast
qed

theorem flip_iff_order_differs_witness:
  "ToIndex (example_runtime True) Undefined kInvalidDataViewAccessorOffset example_isolate =
     (Inr 0, example_isolate) \<and>
   \<not> was_neutered (buffers example_isolate (JSDataView.buffer example_view)) \<and>
   view_within example_view (buffers example_isolate (JSDataView.buffer example_view)) \<and>
   DataViewConvertInput (example_runtime True) BigUint64 (BigInt 0x0102030405060708) example_isolate =
     (Inr (BigInt 0x0102030405060708), example_isolate) \<and>
   0 + sizeof BigUint64 \<le> JSDataView.byte_length example_view \<and>
   NeedToFlipBytes (V8_TARGET_LITTLE_ENDIAN (example_runtime True)) False \<and>
   backing_store (buffers (snd (SetViewValue (example_runtime True) BigUint64 example_view Undefined
     False (BigInt 0x0102030405060708) ''set'' example_isolate)) 0) = [1, 2, 3, 4, 5, 6, 7, 8] \<and>
   \<not> NeedToFlipBytes (V8_TARGET_LITTLE_ENDIAN (example_runtime True)) True \<and>
   backing_store (buffers (snd (SetViewValue (example_runtime True) BigUint64 example_view Undefined
     True (BigInt 0x0102030405060708) ''set'' example_isolate)) 0) = [8, 7, 6, 5, 4, 3, 2, 1]"
proof -
  let ?rt = "example_runtime True"
  have idx: "ToIndex ?rt Undefined kInvalidDataViewAccessorOffset example_isolate =
     (Inr 0, example_isolate)"
    by (simp add: example_runtime_def)
  have att: "\<not> was_neutered (buffers example_isolate (JSDataView.buffer example_view))"
    by (simp add: example_isolate_def)
  have inv: "view_within example_view (buffers example_isolate (JSDataView.buffer example_view))"
    by (simp add: view_within_def example_isolate_def example_view_def)
  have conv: "DataViewConvertInput ?rt BigUint64 (BigInt 0x0102030405060708) example_isolate =
     (Inr (BigInt 0x0102030405060708), example_isolate)"
    by (simp add: example_runtime_def)
  have inb: "0 + sizeof BigUint64 \<le> JSDataView.byte_length example_view"
    by (simp add: example_view_def)
  have tle: "V8_TARGET_LITTLE_ENDIAN ?rt"
    by (simp add: example_runtime_def)
  have bytes: "word_bytes True 8 (AsUint64 0x0102030405060708) = [8, 7, 6, 5, 4, 3, 2, 1]"
    by (simp add: AsUint64_def word_bytes_def upt8 drop_bit_eq_div)
  have store: "backing_store (buffers example_isolate 0) = [0, 0, 0, 0, 0, 0, 0, 0]"
    by (simp add: example_isolate_def)
  have view: "JSDataView.buffer example_view = 0" "byte_offset example_view = 0"
    by (simp_all add: example_view_def)
  note inst = flip_iff_order_differs [OF idx att inv conv att inv inb]
  have flip: "NeedToFlipBytes (V8_TARGET_LITTLE_ENDIAN ?rt) False"
    "\<not> NeedToFlipBytes (V8_TARGET_LITTLE_ENDIAN ?rt) True"
    using inst [THEN conjunct1, of False] inst [THEN conjunct1, of True] tle by simp_all
  have be: "backing_store (buffers (snd (SetViewValue ?rt BigUint64 example_view Undefined
      False (BigInt 0x0102030405060708) ''set'' example_isolate)) 0) = [1, 2, 3, 4, 5, 6, 7, 8]"
    using inst [THEN conjunct2, THEN conjunct2, THEN conjunct2, THEN conjunct2, of False "''set''"]
    by (simp add: tle bytes store view)
  have le: "backing_store (buffers (snd (SetViewValue ?rt BigUint64 example_view Undefined
      True (BigInt 0x0102030405060708) ''set'' example_isolate)) 0) = [8, 7, 6, 5, 4, 3, 2, 1]"
    using inst [THEN conjunct2, THEN conjunct2, THEN conjunct2, THEN conjunct2, of True "''set''"]
    by (simp add: tle bytes store view)
  show ?thesis
    using idx att inv conv inb flip be le by simp
qed

text \<open>
  C9. For a view inside an attached buffer with at least 8 bytes, writing the big
  integer \<open>-1\<close> as \<open>BigInt64\<close> at index 0 and reading \<open>BigUint64\<close> at index 0
  with the flag false returns \<open>2 ^ 64 - 1\<close>. The 64-bit kinds store the low 64 bits
  of the two's complement of the big integer and read them back as a big integer, signed
  or unsigned by kind, not as a double.
\<close>

theorem set_int64_minus_one_get_uint64:
  assumes idx: "ToIndex rt index kInvalidDataViewAccessorOffset isolate = (Inr 0, isolate1)"
    and conv: "BigInt_FromObject rt value isolate1 = (Inr (- 1), isolate2)"
    and att: "\<not> was_neutered (buffers isolate2 (JSDataView.buffer v))"
    and inv: "view_within v (buffers isolate2 (JSDataView.buffer v))"
    and len: "8 \<le> JSDataView.byte_length v"
    and set: "DataViewPrototypeSet rt BigInt64 [DataViewObject v, index, value] isolate = (r, isolate3)"
    and idx2: "ToIndex rt index2 kInvalidDataViewAccessorOffset isolate3 = (Inr 0, isolate4)"
    and same: "buffers isolate4 (JSDataView.buffer v) = buffers isolate3 (JSDataView.buffer v)"
  shows "r = Inr Undefined \<and>
         DataViewPrototypeGet rt BigUint64 [DataViewObject v, index2, Boolean False] isolate3 =
           (Inr (BigInt (2 ^ 64 - 1)), isolate4) \<and>
         DataViewConvertValue BigInt64 (BigInt k) = Some (Int64_t (word_of_int k)) \<and>
         DataViewConvertValue BigUint64 (BigInt k) = Some (Uint64_t (word_of_int k)) \<and>
         AllocateResult (Int64_t w) = BigInt (sint w) \<and>
         AllocateResult (Uint64_t w) = BigInt (uint w)"
proof -
  let ?tle = "V8_TARGET_LITTLE_ENDIAN rt"
  have conv': "DataViewConvertInput rt BigInt64 value isolate1 = (Inr (BigInt (- 1)), isolate2)"
    using conv by simp
  have set': "SetViewValue rt BigInt64 v index False value
      (''DataView.prototype.get'' @ type_name BigInt64) isolate = (r, isolate3)"
    using set
    by (simp add: DataViewPrototypeSet_def CHECK_RECEIVER_JSDataView_def atOrUndefined_def)
  have inb: "0 + sizeof BigInt64 \<le> JSDataView.byte_length v"
    using len by simp
  have size: "sizeof BigUint64 = sizeof BigInt64" by simp
  have whole: "(bytes_word ?tle (word_bytes ?tle 8 (- 1 :: 64 word)) :: 64 word) = - 1"
    by (rule bytes_word_bytes) simp
  have u: "uint (- 1 :: 64 word) = 2 ^ 64 - 1"
    by (simp add: unsigned_minus_1_eq_mask mask_eq_exp_minus_1)
  have "GetViewValue rt BigUint64 v index2 False
          (''DataView.prototype.get'' @ type_name BigUint64) isolate3 =
        (Inr (BigInt (2 ^ 64 - 1)), isolate4)"
    using written_bytes_read_back [OF idx conv' att inv inb set' idx2 same size,
        of False "''DataView.prototype.get'' @ type_name BigUint64"] whole
    by (simp add: AsInt64_def FromUint64_def u)
  then have get: "DataViewPrototypeGet rt BigUint64 [DataViewObject v, index2, Boolean False] isolate3 =
           (Inr (BigInt (2 ^ 64 - 1)), isolate4)"
    by (simp add: DataViewPrototypeGet_def CHECK_RECEIVER_JSDataView_def atOrUndefined_def)
  have r: "r = Inr Undefined"
    using written_bytes_read_back [OF idx conv' att inv inb set' idx2 same size] by simp
  show ?thesis
    using r get by (simp add: AsInt64_def AsUint64_def FromInt64_def FromUint64_def)
qed

theorem set_int64_minus_one_get_uint64_witness:
  "ToIndex (example_runtime True) Undefined kInvalidDataViewAccessorOffset example_isolate =
     (Inr 0, example_isolate) \<and>
   BigInt_FromObject (example_runtime True) (BigInt (- 1)) example_isolate =
     (Inr (- 1), example_isolate) \<and>
   \<not> was_neutered (buffers example_isolate (JSDataView.buffer example_view)) \<and>
   view_within example_view (buffers example_isolate (JSDataView.buffer example_view)) \<and>
   8 \<le> JSDataView.byte_length example_view \<and>
   fst (DataViewPrototypeSet (example_runtime True) BigInt64
     [DataViewObject example_view, Undefined, BigInt (- 1)] example_isolate) = Inr Undefined \<and>
   fst (DataViewPrototypeGet (example_runtime True) BigUint64
     [DataViewObject example_view, Undefined, Boolean False]
     (snd (DataViewPrototypeSet (example_runtime True) BigInt64
        [DataViewObject example_view, Undefined, BigInt (- 1)] example_isolate))) =
     Inr (BigInt 18446744073709551615)"
proof -
  let ?rt = "example_runtime True"
  let ?set = "DataViewPrototypeSet ?rt BigInt64
     [DataViewObject example_view, Undefined, BigInt (- 1)] example_isolate"
  have idx: "ToIndex ?rt Undefined kInvalidDataViewAccessorOffset s = (Inr 0, s)" for s
    by (simp add: example_runtime_def)
  have conv: "BigInt_FromObject ?rt (BigInt (- 1)) example_isolate = (Inr (- 1), example_isolate)"
    by (simp add: example_runtime_def)
  have att: "\<not> was_neutered (buffers example_isolate (JSDataView.buffer example_view))"
    by (simp add: example_isolate_def)
  have inv: "view_within example_view (buffers example_isolate (JSDataView.buffer example_view))"
    by (simp add: view_within_def example_isolate_def example_view_def)
  have len: "8 \<le> JSDataView.byte_length example_view"
    by (simp add: example_view_def)
  have set: "?set = (fst ?set, snd ?set)" by simp
  show ?thesis
    using set_int64_minus_one_get_uint64 [OF idx conv att inv len set idx refl]
      idx [of example_isolate] conv att inv len
    by simp
qed

text \<open>
  C3. For every kind \<open>T\<close>, every view inside an attached buffer, every index in
  bounds, every value \<open>x\<close> the conversion yields and either order flag: a write
  followed by a read of the same kind at the same index with the same flag returns
  \<open>narrow_T(x)\<close>, the narrowing of section 4.3 step 5 on the numbers the values
  stand for (\<open>is_narrow\<close>).
\<close>

theorem set_then_get_narrow:
  assumes idx: "ToIndex rt request_index kInvalidDataViewAccessorOffset isolate = (Inr i, isolate1)"
    and conv: "DataViewConvertInput rt T value isolate1 = (Inr x, isolate2)"
    and att: "\<not> was_neutered (buffers isolate2 (JSDataView.buffer v))"
    and inv: "view_within v (buffers isolate2 (JSDataView.buffer v))"
    and inb: "i + sizeof T \<le> JSDataView.byte_length v"
    and set: "SetViewValue rt T v request_index le value method isolate = (r, isolate3)"
    and idx2: "ToIndex rt request_index2 kInvalidDataViewAccessorOffset isolate3 = (Inr i, isolate4)"
    and same: "buffers isolate4 (JSDataView.buffer v) = buffers isolate3 (JSDataView.buffer v)"
  shows "r = Inr Undefined \<and>
         (\<exists>result. GetViewValue rt T v request_index2 le method2 isolate3 = (Inr result, isolate4) \<and>
                   is_narrow T x result)"
proof -
  obtain d where d: "DataViewConvertValue T x = Some d"
    using DataViewConvertInput_value [OF conv] by blast
  have "union_data (V8_TARGET_LITTLE_ENDIAN rt) T (union_bytes (V8_TARGET_LITTLE_ENDIAN rt) d) = d"
    by (rule union_data_bytes [OF d])
  moreover have "is_narrow T x (AllocateResult d)"
    by (rule AllocateResult_is_narrow [OF d])
  ultimately show ?thesis
    using written_bytes_read_back [OF idx conv att inv inb set idx2 same refl, of le method2]
    by (simp add: d)
qed

theorem set_then_get_narrow_witness:
  "ToIndex (example_runtime False) (JSReceiver 3) kInvalidDataViewAccessorOffset example_isolate =
     (Inr 3, record_effect 3 example_isolate) \<and>
   DataViewConvertInput (example_runtime False) Int8 (Number 0x4069000000000000)
     (record_effect 3 example_isolate) =
     (Inr (Number 0x4069000000000000), record_effect 3 example_isolate) \<and>
   \<not> was_neutered (buffers (record_effect 3 example_isolate) (JSDataView.buffer example_view)) \<and>
   view_within example_view (buffers (record_effect 3 example_isolate) (JSDataView.buffer example_view)) \<and>
   3 + sizeof Int8 \<le> JSDataView.byte_length example_view \<and>
   fst (SetViewValue (example_runtime False) Int8 example_view (JSReceiver 3) True
     (Number 0x4069000000000000) ''set'' example_isolate) = Inr Undefined \<and>
   fst (GetViewValue (example_runtime False) Int8 example_view (JSReceiver 3) True ''get''
     (snd (SetViewValue (example_runtime False) Int8 example_view (JSReceiver 3) True
        (Number 0x4069000000000000) ''set'' example_isolate))) =
     Inr (Number 0xC04C000000000000) \<and>
   number_is_int 0xC04C000000000000 (- 56)"
proof -
  let ?rt = "example_runtime False"
  let ?x = "0x4069000000000000 :: double"
  let ?set = "SetViewValue ?rt Int8 example_view (JSReceiver 3) True (Number ?x) ''set'' example_isolate"
  let ?get = "GetViewValue ?rt Int8 example_view (JSReceiver 3) True ''get'' (snd ?set)"
  have idx: "ToIndex ?rt (JSReceiver 3) kInvalidDataViewAccessorOffset s = (Inr 3, record_effect 3 s)" for s
    by (simp add: example_runtime_def)
  have conv: "DataViewConvertInput ?rt Int8 (Number ?x) (record_effect 3 example_isolate) =
     (Inr (Number ?x), record_effect 3 example_isolate)"
    by (simp add: example_runtime_def)
  have att: "\<not> was_neutered (buffers (record_effect 3 example_isolate) (JSDataView.buffer example_view))"
    by (simp add: record_effect_def example_isolate_def)
  have inv: "view_within example_view (buffers (record_effect 3 example_isolate) (JSDataView.buffer example_view))"
    by (simp add: view_within_def record_effect_def example_isolate_def example_view_def)
  have inb: "3 + sizeof Int8 \<le> JSDataView.byte_length example_view"
    by (simp add: example_view_def)
  have set: "?set = (fst ?set, snd ?set)" by simp
  have same: "buffers (record_effect 3 (snd ?set)) (JSDataView.buffer example_view) =
      buffers (snd ?set) (JSDataView.buffer example_view)"
    by (simp add: record_effect_def)
  have m: "double_magnitude ?x = 0x4069000000000000"
    by (simp add: double_magnitude_def take_bit_eq_mod)
  have f: "ieee_fields 52 11 0x4069000000000000 = (0x19000000000000, - 45)"
    by (simp add: ieee_fields_def ieee_emin_def)
  have t: "DoubleToInt32 ?x = 200"
    by (simp add: DoubleToInt32_def double_is_finite_def double_truncate_def m f
        double_sign_def bit_iff_odd)
  have tm: "truncate_mod_2_32 ?x = 200"
    using uint_DoubleToInt32 [of ?x] by (simp only: t) simp
  have d: "DataViewConvertValue Int8 (Number ?x) = Some (Int8_t 200)"
    by (simp add: t)
  have a: "AllocateResult (Int8_t 200) = Number 0xC04C000000000000"
    by (simp add: NewNumber_def double_of_int_minus_56)
  have tle: "V8_TARGET_LITTLE_ENDIAN ?rt = False"
    by (simp add: example_runtime_def)
  have u: "union_data False Int8 (union_bytes False (Int8_t 200)) = Int8_t 200"
    by (rule union_data_bytes [OF d])
  have get: "?get = (Inr (Number 0xC04C000000000000), record_effect 3 (snd ?set))"
    using written_bytes_read_back [OF idx conv att inv inb set idx same refl, of True "''get''"]
    by (simp only: d option.sel if_True tle u a refl)
  from set_then_get_narrow [OF idx conv att inv inb set idx same, of "''get''"]
  obtain result where r: "fst ?set = Inr Undefined"
    and g: "?get = (Inr result, record_effect 3 (snd ?set))"
    and n: "is_narrow Int8 (Number ?x) result"
    by blast
  from g get have "result = Number 0xC04C000000000000" by simp
  with n have n': "is_narrow Int8 (Number ?x) (Number 0xC04C000000000000)" by simp
  then have i: "number_is_int 0xC04C000000000000 (- 56)"
    by (simp add: is_narrow_def tm low_order_bits_def sign_reinterpret_def)
  show ?thesis
    using idx [of example_isolate] conv att inv inb r get i by simp
qed

text \<open>
  C5. A write narrows the converted value to the width of its kind, and the bytes of
  the narrowed value are what it stores. For the 8-, 16- and 32-bit integers the double
  is truncated modulo \<open>2 ^ 32\<close>, a non-finite one to 0, and the low-order bits of the
  kind are kept; \<open>Float32\<close> takes the single-precision value nearest to the double,
  the even one of two that are as near; \<open>Float64\<close> keeps the double as it is; the
  64-bit kinds keep the low 64 bits of the big integer.
\<close>

theorem narrowing_per_kind:
  assumes idx: "ToIndex rt request_index kInvalidDataViewAccessorOffset isolate = (Inr i, isolate1)"
    and conv: "DataViewConvertInput rt T value isolate1 = (Inr x, isolate2)"
    and att: "\<not> was_neutered (buffers isolate2 (JSDataView.buffer v))"
    and inv: "view_within v (buffers isolate2 (JSDataView.buffer v))"
    and inb: "i + sizeof T \<le> JSDataView.byte_length v"
  shows "(\<exists>d. DataViewConvertValue T x = Some d \<and>
              length (union_bytes (V8_TARGET_LITTLE_ENDIAN rt) d) = sizeof T \<and>
              backing_store (buffers
                (snd (SetViewValue rt T v request_index le value method isolate))
                (JSDataView.buffer v)) =
                take (byte_offset v + i) (backing_store (buffers isolate2 (JSDataView.buffer v))) @
                union_bytes le d @
                drop (byte_offset v + i + sizeof T)
                  (backing_store (buffers isolate2 (JSDataView.buffer v)))) \<and>
         DataViewConvertValue Int8 (Number y) =
           Some (Int8_t (word_of_int (low_order_bits 8 (truncate_mod_2_32 y)))) \<and>
         DataViewConvertValue Uint8 (Number y) =
           Some (Uint8_t (word_of_int (low_order_bits 8 (truncate_mod_2_32 y)))) \<and>
         DataViewConvertValue Int16 (Number y) =
           Some (Int16_t (word_of_int (low_order_bits 16 (truncate_mod_2_32 y)))) \<and>
         DataViewConvertValue Uint16 (Number y) =
           Some (Uint16_t (word_of_int (low_order_bits 16 (truncate_mod_2_32 y)))) \<and>
         DataViewConvertValue Int32 (Number y) =
           Some (Int32_t (word_of_int (truncate_mod_2_32 y))) \<and>
         DataViewConvertValue Uint32 (Number y) =
           Some (Uint32_t (word_of_int (truncate_mod_2_32 y))) \<and>
         (\<exists>f. DataViewConvertValue Float32 (Number y) = Some (Float f) \<and> is_float_of y f) \<and>
         DataViewConvertValue Float64 (Number y) = Some (Double y) \<and>
         DataViewConvertValue BigInt64 (BigInt k) =
           Some (Int64_t (word_of_int (low_order_bits 64 k))) \<and>
         DataViewConvertValue BigUint64 (BigInt k) =
           Some (Uint64_t (word_of_int (low_order_bits 64 k)))"
proof -
  obtain d where d: "DataViewConvertValue T x = Some d"
    using DataViewConvertInput_value [OF conv] by blast
  have order: "(if le = V8_TARGET_LITTLE_ENDIAN rt
          then union_bytes (V8_TARGET_LITTLE_ENDIAN rt) d
          else rev (union_bytes (V8_TARGET_LITTLE_ENDIAN rt) d)) = union_bytes le d"
    by (cases d) (auto simp: rev_word_bytes)
  have stored: "backing_store (buffers
                (snd (SetViewValue rt T v request_index le value method isolate))
                (JSDataView.buffer v)) =
                take (byte_offset v + i) (backing_store (buffers isolate2 (JSDataView.buffer v))) @
                union_bytes le d @
                drop (byte_offset v + i + sizeof T)
                  (backing_store (buffers isolate2 (JSDataView.buffer v)))"
    using inb order by (simp add: SetViewValue_attached [OF idx conv att inv] d Let_def)
  have first: "\<exists>d. DataViewConvertValue T x = Some d \<and>
              length (union_bytes (V8_TARGET_LITTLE_ENDIAN rt) d) = sizeof T \<and>
              backing_store (buffers
                (snd (SetViewValue rt T v request_index le value method isolate))
                (JSDataView.buffer v)) =
                take (byte_offset v + i) (backing_store (buffers isolate2 (JSDataView.buffer v))) @
                union_bytes le d @
                drop (byte_offset v + i + sizeof T)
                  (backing_store (buffers isolate2 (JSDataView.buffer v)))"
    using d length_union_bytes [OF d] stored by blast
  have c8: "(ucast (word_of_int n :: 32 word) :: 8 word) = word_of_int (low_order_bits 8 n)" for n
    by (simp add: low_order_bits_def word_eq_iff_unsigned [where ?'a = int] unsigned_ucast_eq
        uint_word_of_int take_bit_eq_mod mod_mod_cancel)
  have c16: "(ucast (word_of_int n :: 32 word) :: 16 word) = word_of_int (low_order_bits 16 n)" for n
    by (simp add: low_order_bits_def word_eq_iff_unsigned [where ?'a = int] unsigned_ucast_eq
        uint_word_of_int take_bit_eq_mod mod_mod_cancel)
  have c64: "(word_of_int n :: 64 word) = word_of_int (low_order_bits 64 n)" for n
    by (simp add: low_order_bits_def word_of_int_eq_iff take_bit_eq_mod)
  have fl: "\<exists>f. DataViewConvertValue Float32 (Number y) = Some (Float f) \<and> is_float_of y f"
    using static_cast_float_is_float [of y] by simp
  show ?thesis
    using first c64 [of k] fl
    by (simp add: DoubleToUint32_def DoubleToInt32_truncate_mod c8 c16 AsInt64_def AsUint64_def)
qed

theorem narrowing_per_kind_witness:
  "ToIndex (example_runtime True) (JSReceiver 3) kInvalidDataViewAccessorOffset example_isolate =
     (Inr 3, record_effect 3 example_isolate) \<and>
   DataViewConvertInput (example_runtime True) Int8 (Number 0x4069000000000000)
     (record_effect 3 example_isolate) =
     (Inr (Number 0x4069000000000000), record_effect 3 example_isolate) \<and>
   \<not> was_neutered (buffers (record_effect 3 example_isolate) (JSDataView.buffer example_view)) \<and>
   view_within example_view (buffers (record_effect 3 example_isolate) (JSDataView.buffer example_view)) \<and>
   3 + sizeof Int8 \<le> JSDataView.byte_length example_view \<and>
   DataViewConvertValue Int8 (Number 0x4069000000000000) = Some (Int8_t 200) \<and>
   backing_store (buffers (snd (SetViewValue (example_runtime True) Int8 example_view (JSReceiver 3)
     False (Number 0x4069000000000000) ''set'' example_isolate)) 0) = [0, 0, 0, 200, 0, 0, 0, 0] \<and>
   DataViewConvertValue Float32 (Number 0x4069000000000000) = Some (Float 0x43480000) \<and>
   float_sign 0x43480000 = double_sign 0x4069000000000000 \<and>
   \<bar>ieee_value 23 8 (float_magnitude 0x43480000) -
      ieee_value 52 11 (double_magnitude 0x4069000000000000)\<bar>
     \<le> \<bar>ieee_value 23 8 0x43480001 - ieee_value 52 11 (double_magnitude 0x4069000000000000)\<bar>"
proof -
  let ?rt = "example_runtime True"
  let ?x = "0x4069000000000000 :: double"
  have idx: "ToIndex ?rt (JSReceiver 3) kInvalidDataViewAccessorOffset example_isolate =
      (Inr 3, record_effect 3 example_isolate)"
    by (simp add: example_runtime_def)
  have conv: "DataViewConvertInput ?rt Int8 (Number ?x) (record_effect 3 example_isolate) =
     (Inr (Number ?x), record_effect 3 example_isolate)"
    by (simp add: example_runtime_def)
  have att: "\<not> was_neutered (buffers (record_effect 3 example_isolate) (JSDataView.buffer example_view))"
    by (simp add: record_effect_def example_isolate_def)
  have inv: "view_within example_view (buffers (record_effect 3 example_isolate) (JSDataView.buffer example_view))"
    by (simp add: view_within_def record_effect_def example_isolate_def example_view_def)
  have inb: "3 + sizeof Int8 \<le> JSDataView.byte_length example_view"
    by (simp add: example_view_def)
  have m: "double_magnitude ?x = 0x4069000000000000"
    by (simp add: double_magnitude_def take_bit_eq_mod)
  have f: "ieee_fields 52 11 0x4069000000000000 = (0x19000000000000, - 45)"
    by (simp add: ieee_fields_def ieee_emin_def)
  have fin: "double_is_finite ?x"
    by (simp add: double_is_finite_def m)
  have dt: "DoubleToInt32 ?x = 200"
    by (simp add: DoubleToInt32_def double_is_finite_def double_truncate_def m f
        double_sign_def bit_iff_odd)
  have t: "truncate_mod_2_32 ?x = 200"
    using uint_DoubleToInt32 [of ?x] by (simp only: dt) simp
  note inst = narrowing_per_kind [OF idx conv att inv inb, of False "''set''" ?x]
  have d: "DataViewConvertValue Int8 (Number ?x) = Some (Int8_t 200)"
    using inst by (simp add: t low_order_bits_def)
  have store: "backing_store (buffers (record_effect 3 example_isolate) 0) = [0, 0, 0, 0, 0, 0, 0, 0]"
    by (simp add: record_effect_def example_isolate_def)
  have view: "JSDataView.buffer example_view = 0" "byte_offset example_view = 0"
    by (simp_all add: example_view_def)
  have bytes: "word_bytes False (Suc 0) (200 :: 8 word) = [200]"
    by (simp add: word_bytes_def)
  have stored: "backing_store (buffers (snd (SetViewValue ?rt Int8 example_view (JSReceiver 3)
     False (Number ?x) ''set'' example_isolate)) 0) = [0, 0, 0, 200, 0, 0, 0, 0]"
    using inst [THEN conjunct1] by (simp only: d) (simp add: view store bytes)
  from inst obtain fl where c: "DataViewConvertValue Float32 (Number ?x) = Some (Float fl)"
    and n: "is_float_of ?x fl"
    by blast
  have fl: "fl = 0x43480000"
    using c by (simp add: static_cast_float_200)
  have c': "DataViewConvertValue Float32 (Number ?x) = Some (Float 0x43480000)"
    using c by (simp only: fl)
  have near: "float_sign 0x43480000 = double_sign ?x \<and>
      is_single_nearest (ieee_value 52 11 (double_magnitude ?x)) (float_magnitude 0x43480000)"
    using n fin by (simp only: fl is_float_of_def if_True)
  then have sg: "float_sign 0x43480000 = double_sign ?x" by (rule conjunct1)
  have j: "(0x43480001 :: nat) \<le> 255 * 2 ^ 23" by simp
  have ne: "\<bar>ieee_value 23 8 (float_magnitude 0x43480000) - ieee_value 52 11 (double_magnitude ?x)\<bar>
     \<le> \<bar>ieee_value 23 8 0x43480001 - ieee_value 52 11 (double_magnitude ?x)\<bar>"
    using near [THEN conjunct2] j unfolding is_single_nearest_def by blast
  show ?thesis
    using idx conv att inv inb d stored c' sg ne by (simp only: simp_thms)
qed

end
